theory Spec2Isabelle
  imports Complex_Main "HOL-Library.Sublist"
begin

section \<open>Space missions analyzer: the data model\<close>

text \<open>
  The program (\<^verbatim>\<open>analyze.py\<close>) loads a table of space missions, filters it and prints
  statistics. Every function is embedded as a HOL function of the same name. A Python
  exception is a value \<open>Inl e\<close> of a sum type, a normal return is \<open>Inr v\<close>; text written
  with \<^verbatim>\<open>print\<close> is returned as a list of lines next to the result.
\<close>

datatype error =
    ZeroDivisionError
  | IndexError
  | KeyError
  | AttributeError
  | TypeError
  | ValueError
  | OverflowError
  | SystemExit

text \<open>
  The values a row of the table holds after loading: \<^verbatim>\<open>None\<close> (a cell missing at the
  end of a short line), a \<^verbatim>\<open>bool\<close>, an \<^verbatim>\<open>int\<close> or a \<^verbatim>\<open>str\<close>.
\<close>

datatype val = VNone | VBool bool | VInt int | VStr string

text \<open>
  A row as \<^verbatim>\<open>csv.DictReader\<close> yields it: a dictionary from the names of the header to
  the text of the cell, or to \<^verbatim>\<open>None\<close> where the line ended early. A list of pairs,
  looked up with \<open>map_of\<close>. The cells of a line beyond the header, which the reader
  collects under the key \<^verbatim>\<open>None\<close>, are left out: the program never reads them.
\<close>

type_synonym raw_row = "(string \<times> string option) list"

text \<open>
  A row after \<^verbatim>\<open>load_data\<close>: the same dictionary with the entries \<^verbatim>\<open>year\<close>,
  \<^verbatim>\<open>success\<close> and \<^verbatim>\<open>scientific_impact\<close> overwritten by an int, a bool and an int.
  The three typed entries are fields of the record; \<open>columns\<close> holds the entries that
  \<^verbatim>\<open>load_data\<close> leaves as they are.
\<close>

record mission =
  year :: int
  success :: bool
  scientific_impact :: int
  columns :: raw_row

definition typed_keys :: "string list" where
  "typed_keys = [''year'', ''success'', ''scientific_impact'']"

definition keys :: "mission \<Rightarrow> string list" where
  "keys row = typed_keys @ map fst (columns row)"

definition getitem :: "mission \<Rightarrow> string \<Rightarrow> error + val" where
  "getitem row column =
     (if column = ''year'' then Inr (VInt (year row))
      else if column = ''success'' then Inr (VBool (success row))
      else if column = ''scientific_impact'' then Inr (VInt (scientific_impact row))
      else (case map_of (columns row) column of
              None \<Rightarrow> Inl KeyError
            | Some None \<Rightarrow> Inr VNone
            | Some (Some s) \<Rightarrow> Inr (VStr s)))"

subsection \<open>Strings\<close>

text \<open>
  A character is its code point, and the type \<open>char\<close> holds the code points below 256.
  \<^verbatim>\<open>str.lower\<close> moves the capital letters there, \<^verbatim>\<open>A\<close> to \<^verbatim>\<open>Z\<close> and U+00C0 to
  U+00DE without the sign U+00D7, 32 places up, and leaves every other character.
  \<^verbatim>\<open>a in b\<close> on strings is the test for a contiguous piece.
\<close>

definition lower_char :: "char \<Rightarrow> char" where
  "lower_char c =
     (let n = (of_char c :: nat) in
      if (65 \<le> n \<and> n \<le> 90) \<or> (192 \<le> n \<and> n \<le> 222 \<and> n \<noteq> 215) then char_of (n + 32)
      else c)"

definition lower :: "string \<Rightarrow> string" where
  "lower s = map lower_char s"

definition str_in :: "string \<Rightarrow> string \<Rightarrow> bool" where
  "str_in needle hay = sublist needle hay"

text \<open>
  \<^verbatim>\<open>int(s)\<close> on a string (CPython 3.11). The blanks around the number are dropped:
  the characters U+0009 to U+000D, the space, U+0085 and U+00A0 (the separators U+001C
  to U+001F are blanks for \<^verbatim>\<open>str.isspace\<close> but not for \<^verbatim>\<open>int\<close>). What is left is
  an optional sign and decimal digits, where single underscores may stand between two
  digits; the only decimal digits below 256 are \<^verbatim>\<open>0\<close> to \<^verbatim>\<open>9\<close>. A number of
  more than \<open>max_str_digits\<close> digits, leading zeros counted, is refused: the limit is
  \<^verbatim>\<open>sys.get_int_max_str_digits()\<close>, 4300 unless the interpreter is told otherwise.
  Every refusal is a ValueError, the value \<open>None\<close> here.
\<close>

definition is_space :: "char \<Rightarrow> bool" where
  "is_space c =
     (c \<in> set [CHR 0x20, CHR 0x09, CHR 0x0A, CHR 0x0B, CHR 0x0C, CHR 0x0D, CHR 0x85, CHR 0xA0])"

definition strip :: "string \<Rightarrow> string" where
  "strip s = rev (dropWhile is_space (rev (dropWhile is_space s)))"

definition digit_of :: "char \<Rightarrow> nat option" where
  "digit_of c =
     (let n = (of_char c :: nat) in if 48 \<le> n \<and> n \<le> 57 then Some (n - 48) else None)"

fun digits_acc :: "nat \<Rightarrow> string \<Rightarrow> nat option" where
  "digits_acc acc [] = Some acc"
| "digits_acc acc [c] =
     (case digit_of c of None \<Rightarrow> None | Some k \<Rightarrow> Some (10 * acc + k))"
| "digits_acc acc (c # d # ds) =
     (if c = CHR ''_''
      then (case digit_of d of None \<Rightarrow> None | Some k \<Rightarrow> digits_acc (10 * acc + k) ds)
      else (case digit_of c of None \<Rightarrow> None | Some k \<Rightarrow> digits_acc (10 * acc + k) (d # ds)))"

definition max_str_digits :: nat where
  "max_str_digits = 4300"

definition digit_count :: "string \<Rightarrow> nat" where
  "digit_count s = length (filter (\<lambda>c. digit_of c \<noteq> None) s)"

definition parse_digits :: "string \<Rightarrow> nat option" where
  "parse_digits s =
     (case s of
        [] \<Rightarrow> None
      | c # cs \<Rightarrow>
          (case digit_of c of
             None \<Rightarrow> None
           | Some k \<Rightarrow> if max_str_digits < digit_count s then None else digits_acc k cs))"

definition int_of_str :: "string \<Rightarrow> int option" where
  "int_of_str s =
     (case strip s of
        [] \<Rightarrow> None
      | c # cs \<Rightarrow>
          if c = CHR ''-'' then map_option (\<lambda>n. - int n) (parse_digits cs)
          else if c = CHR ''+'' then map_option int (parse_digits cs)
          else map_option int (parse_digits (c # cs)))"

subsection \<open>Comparisons of a cell with a bool and with an int\<close>

text \<open>
  \<^verbatim>\<open>x == b\<close> for a bool \<open>b\<close>: a bool is the int 0 or 1, a string or \<^verbatim>\<open>None\<close> is never
  equal to it. \<^verbatim>\<open>x >= t\<close> for an int \<open>t\<close>: a string or \<^verbatim>\<open>None\<close> raises TypeError.
\<close>

definition int_of_bool :: "bool \<Rightarrow> int" where
  "int_of_bool b = (if b then 1 else 0)"

fun py_eq_bool :: "val \<Rightarrow> bool \<Rightarrow> bool" where
  "py_eq_bool (VBool a) b = (a = b)"
| "py_eq_bool (VInt i) b = (i = int_of_bool b)"
| "py_eq_bool (VStr s) b = False"
| "py_eq_bool VNone b = False"

fun py_ge_int :: "val \<Rightarrow> int \<Rightarrow> error + bool" where
  "py_ge_int (VInt i) t = Inr (i \<ge> t)"
| "py_ge_int (VBool a) t = Inr (int_of_bool a \<ge> t)"
| "py_ge_int (VStr s) t = Inl TypeError"
| "py_ge_int VNone t = Inl TypeError"

fun str_lower :: "val \<Rightarrow> error + string" where
  "str_lower (VStr s) = Inr (lower s)"
| "str_lower (VInt i) = Inl AttributeError"
| "str_lower (VBool a) = Inl AttributeError"
| "str_lower VNone = Inl AttributeError"

section \<open>Floating-point numbers\<close>

text \<open>
  A Python \<^verbatim>\<open>float\<close> is an IEEE 754 double. A finite double is modelled by the rational
  number it stands for, and an operation on doubles by the exact operation followed
  by rounding to the nearest double, ties to the even significand: 53 bits of
  significand, the exponent of the last bit no smaller than \<open>-1074\<close>. Where Python
  raises OverflowError for a result that is too large, the model does so too.
\<close>

type_synonym double = rat

text \<open>The number of bits of a positive integer (\<^verbatim>\<open>int.bit_length\<close>).\<close>

function bit_length :: "int \<Rightarrow> int" where
  "bit_length n = (if n \<le> 0 then 0 else 1 + bit_length (n div 2))"
  by pat_completeness auto
termination
  by (relation "measure nat") auto

declare bit_length.simps [simp del]

text \<open>The power \<open>2\<^sup>k\<close> for an integer \<open>k\<close>.\<close>

definition pow2 :: "int \<Rightarrow> rat" where
  "pow2 k = (if 0 \<le> k then 2 ^ nat k else 1 / 2 ^ nat (- k))"

text \<open>The exponent \<open>k\<close> with \<open>2\<^sup>k \<le> x < 2\<^sup>k\<^sup>+\<^sup>1\<close>, for a positive \<open>x\<close>.\<close>

definition floor_log2 :: "rat \<Rightarrow> int" where
  "floor_log2 x =
     (if 1 \<le> x then bit_length \<lfloor>x\<rfloor> - 1 else - bit_length (\<lceil>1 / x\<rceil> - 1))"

text \<open>The nearest integer, a tie going to the even one.\<close>

definition round_even :: "rat \<Rightarrow> int" where
  "round_even x =
     (let f = \<lfloor>x\<rfloor>; d = x - of_int f
      in if d < 1 / 2 then f else if 1 / 2 < d then f + 1 else if even f then f else f + 1)"

text \<open>
  The nearest double. The result may be \<open>2\<^sup>1\<^sup>0\<^sup>2\<^sup>4\<close> or more, which is no double: the
  operations below that can get there check for it.
\<close>

definition round_double :: "rat \<Rightarrow> double" where
  "round_double x =
     (if x = 0 then 0
      else let a = \<bar>x\<bar>;
               e = max (floor_log2 a - 52) (- 1074);
               v = of_int (round_even (a / pow2 e)) * pow2 e
           in if x < 0 then - v else v)"

text \<open>
  \<^verbatim>\<open>float(n)\<close>, the conversion \<^verbatim>\<open>math.sqrt\<close> applies to an int argument: the nearest
  double, or OverflowError (\<^verbatim>\<open>int too large to convert to float\<close>).
\<close>

definition float_of_int :: "int \<Rightarrow> error + double" where
  "float_of_int n =
     (let v = round_double (of_int n)
      in if 2 ^ 1024 \<le> \<bar>v\<bar> then Inl OverflowError else Inr v)"

text \<open>
  The integer square root, two bits at a time; \<open>float_sqrt\<close> is the square root of a
  double that is not negative, rounded to the nearest double as the C library does:
  the significand of the result is the integer square root of the argument scaled by
  a power of four, corrected by the comparison with the midpoint.
\<close>

function isqrt :: "int \<Rightarrow> int" where
  "isqrt n =
     (if n < 4 then (if n \<le> 0 then 0 else 1)
      else let r = 2 * isqrt (n div 4) in if (r + 1) * (r + 1) \<le> n then r + 1 else r)"
  by pat_completeness auto
termination
  by (relation "measure nat") auto

declare isqrt.simps [simp del]

definition float_sqrt :: "double \<Rightarrow> double" where
  "float_sqrt x =
     (if x = 0 then 0
      else let e = floor_log2 x div 2 - 52;
               X = x / pow2 (2 * e);
               m = isqrt \<lfloor>X\<rfloor>;
               h = (of_int m + 1 / 2) * (of_int m + 1 / 2)
           in of_int (if X < h then m else if h < X then m + 1
                      else if even m then m else m + 1) * pow2 e)"

text \<open>\<^verbatim>\<open>int(x)\<close> for a double: the fraction is cut off.\<close>

definition float_trunc :: "double \<Rightarrow> int" where
  "float_trunc x = (if 0 \<le> x then \<lfloor>x\<rfloor> else \<lceil>x\<rceil>)"

section \<open>The predicates\<close>

text \<open>
  \<^verbatim>\<open>
  def is_prime(num):
      if num < 2:
          return False
      for i in range(2, int(math.sqrt(num)) + 1):
          if num % i == 0:
              return False
      return True
  \<close>
  \<open>is_prime_loop num i stop\<close> is the loop from \<open>i\<close> on; the bound of the range is
  computed in floating point.
\<close>

function is_prime_loop :: "int \<Rightarrow> int \<Rightarrow> int \<Rightarrow> bool" where
  "is_prime_loop num i stop =
     (if i < stop then (if num mod i = 0 then False else is_prime_loop num (i + 1) stop)
      else True)"
  by pat_completeness auto
termination
  by (relation "measure (\<lambda>(num, i, stop). nat (stop - i))") auto

declare is_prime_loop.simps [simp del]

definition is_prime :: "int \<Rightarrow> error + bool" where
  "is_prime num =
     (if num < 2 then Inr False
      else (case float_of_int num of
              Inl e \<Rightarrow> Inl e
            | Inr x \<Rightarrow> Inr (is_prime_loop num 2 (float_trunc (float_sqrt x) + 1))))"

text \<open>
  \<^verbatim>\<open>
  def is_divisible_by(num, divisor):
      return num % divisor == 0
  \<close>
  Python's \<^verbatim>\<open>%\<close> on ints is the remainder of floor division, as \<open>mod\<close> on \<open>int\<close>;
  a zero divisor raises.
\<close>

definition is_divisible_by :: "int \<Rightarrow> int \<Rightarrow> error + bool" where
  "is_divisible_by num divisor =
     (if divisor = 0 then Inl ZeroDivisionError else Inr (num mod divisor = 0))"

section \<open>The filters\<close>

text \<open>
  A list comprehension \<^verbatim>\<open>[row for row in data if cond(row)]\<close>: the condition is
  evaluated row by row, in order, and the first exception ends the comprehension.
\<close>

fun list_comp :: "('a \<Rightarrow> error + bool) \<Rightarrow> 'a list \<Rightarrow> error + 'a list" where
  "list_comp cond [] = Inr []"
| "list_comp cond (row # data) =
     (case cond row of
        Inl e \<Rightarrow> Inl e
      | Inr b \<Rightarrow>
          (case list_comp cond data of
             Inl e \<Rightarrow> Inl e
           | Inr kept \<Rightarrow> Inr (if b then row # kept else kept)))"

definition filter_by_prime_years :: "mission list \<Rightarrow> error + mission list" where
  "filter_by_prime_years data = list_comp (\<lambda>row. is_prime (year row)) data"

definition filter_by_divisible_years :: "mission list \<Rightarrow> int \<Rightarrow> error + mission list" where
  "filter_by_divisible_years data divisor =
     list_comp (\<lambda>row. is_divisible_by (year row) divisor) data"

text \<open>
  \<^verbatim>\<open>
  def filter_by_column(data, column, value):
      if column not in data[0].keys():
          print(f"Error: Column '{column}' not found in data.")
          return data
      if column == 'success':
          value = value.lower() == 'true'
          return [row for row in data if row[column] == value]
      elif column == 'scientific_impact':
          try:
              threshold = int(value)
              return [row for row in data if row[column] >= threshold]
          except ValueError:
              print("Error: Scientific impact must be a number.")
              return data
      else:
          return [row for row in data if value.lower() in row[column].lower()]
  \<close>
  The result is the pair of the lines printed and the list returned.
\<close>

definition column_not_found :: "string \<Rightarrow> string" where
  "column_not_found column =
     ''Error: Column '' @ [CHR 0x27] @ column @ [CHR 0x27] @ '' not found in data.''"

definition impact_not_a_number :: string where
  "impact_not_a_number = ''Error: Scientific impact must be a number.''"

definition cond_success :: "string \<Rightarrow> bool \<Rightarrow> mission \<Rightarrow> error + bool" where
  "cond_success column b row =
     (case getitem row column of Inl e \<Rightarrow> Inl e | Inr x \<Rightarrow> Inr (py_eq_bool x b))"

definition cond_impact :: "string \<Rightarrow> int \<Rightarrow> mission \<Rightarrow> error + bool" where
  "cond_impact column threshold row =
     (case getitem row column of Inl e \<Rightarrow> Inl e | Inr x \<Rightarrow> py_ge_int x threshold)"

definition cond_text :: "string \<Rightarrow> string \<Rightarrow> mission \<Rightarrow> error + bool" where
  "cond_text column v row =
     (case getitem row column of
        Inl e \<Rightarrow> Inl e
      | Inr x \<Rightarrow> (case str_lower x of Inl e \<Rightarrow> Inl e | Inr s \<Rightarrow> Inr (str_in (lower v) s)))"

definition filter_by_column ::
  "mission list \<Rightarrow> string \<Rightarrow> string \<Rightarrow> error + (string list \<times> mission list)" where
  "filter_by_column data column v =
     (case data of
        [] \<Rightarrow> Inl IndexError
      | first # _ \<Rightarrow>
          if column \<notin> set (keys first) then Inr ([column_not_found column], data)
          else if column = ''success'' then
            (case list_comp (cond_success column (lower v = ''true'')) data of
               Inl e \<Rightarrow> Inl e
             | Inr kept \<Rightarrow> Inr ([], kept))
          else if column = ''scientific_impact'' then
            (case int_of_str v of
               None \<Rightarrow> Inr ([impact_not_a_number], data)
             | Some threshold \<Rightarrow>
                 (case list_comp (cond_impact column threshold) data of
                    Inl e \<Rightarrow>
                      if e = ValueError then Inr ([impact_not_a_number], data) else Inl e
                  | Inr kept \<Rightarrow> Inr ([], kept)))
          else
            (case list_comp (cond_text column v) data of
               Inl e \<Rightarrow> Inl e
             | Inr kept \<Rightarrow> Inr ([], kept)))"

section \<open>The loader\<close>

text \<open>
  \<^verbatim>\<open>
  def load_data(file_path):
      try:
          data = []
          with open(file_path, 'r', encoding='utf-8') as f:
              reader = csv.DictReader(f)
              for row in reader:
                  row['year'] = int(row['year'])
                  row['success'] = row['success'].lower() == 'true'
                  row['scientific_impact'] = int(row['scientific_impact'])
                  data.append(row)
          return data
      except FileNotFoundError:
          print(f"Error: File '{file_path}' not found.")
          sys.exit(1)
      except Exception as e:
          print(f"Error loading data: {e}")
          sys.exit(1)
  \<close>
  The argument of the model is what \<^verbatim>\<open>csv.DictReader\<close> yields for the file, \<open>None\<close>
  for a file that does not exist. \<open>load_row\<close> is the body of the loop with the
  exception each statement raises: a missing key, \<^verbatim>\<open>int(None)\<close>, text that is not a
  number, \<^verbatim>\<open>None.lower()\<close>. Every exception ends in \<^verbatim>\<open>sys.exit(1)\<close>, modelled
  by \<open>SystemExit\<close>; the message printed before it is left out.
\<close>

definition load_row :: "raw_row \<Rightarrow> error + mission" where
  "load_row row =
     (case map_of row ''year'' of
        None \<Rightarrow> Inl KeyError
      | Some None \<Rightarrow> Inl TypeError
      | Some (Some ys) \<Rightarrow>
     (case int_of_str ys of
        None \<Rightarrow> Inl ValueError
      | Some y \<Rightarrow>
     (case map_of row ''success'' of
        None \<Rightarrow> Inl KeyError
      | Some None \<Rightarrow> Inl AttributeError
      | Some (Some ss) \<Rightarrow>
     (case map_of row ''scientific_impact'' of
        None \<Rightarrow> Inl KeyError
      | Some None \<Rightarrow> Inl TypeError
      | Some (Some is) \<Rightarrow>
     (case int_of_str is of
        None \<Rightarrow> Inl ValueError
      | Some i \<Rightarrow>
          Inr \<lparr>year = y, success = (lower ss = ''true''), scientific_impact = i,
               columns = filter (\<lambda>(k, v). k \<notin> set typed_keys) row\<rparr>)))))"

fun load_loop :: "mission list \<Rightarrow> raw_row list \<Rightarrow> error + mission list" where
  "load_loop data [] = Inr data"
| "load_loop data (row # rest) =
     (case load_row row of Inl e \<Rightarrow> Inl e | Inr m \<Rightarrow> load_loop (data @ [m]) rest)"

definition load_data :: "raw_row list option \<Rightarrow> error + mission list" where
  "load_data file =
     (case file of
        None \<Rightarrow> Inl SystemExit
      | Some reader \<Rightarrow>
          (case load_loop [] reader of Inl e \<Rightarrow> Inl SystemExit | Inr data \<Rightarrow> Inr data))"

text \<open>A row where the three conversions of \<open>load_row\<close> succeed.\<close>

definition parsable :: "raw_row \<Rightarrow> bool" where
  "parsable row =
     ((case map_of row ''year'' of Some (Some ys) \<Rightarrow> int_of_str ys \<noteq> None | _ \<Rightarrow> False) \<and>
      (case map_of row ''success'' of Some (Some ss) \<Rightarrow> True | _ \<Rightarrow> False) \<and>
      (case map_of row ''scientific_impact'' of
         Some (Some is) \<Rightarrow> int_of_str is \<noteq> None | _ \<Rightarrow> False))"

subsection \<open>The table of the unit tests\<close>

definition raw :: "string \<Rightarrow> string \<Rightarrow> string \<Rightarrow> string \<Rightarrow> string \<Rightarrow> string \<Rightarrow> raw_row" where
  "raw y n t s c i =
     [(''year'', Some y), (''mission_name'', Some n), (''mission_type'', Some t),
      (''success'', Some s), (''participating_countries'', Some c),
      (''scientific_impact'', Some i)]"

definition sample_file :: "raw_row list" where
  "sample_file =
     [raw ''1971'' ''Mars 1'' ''Mars'' ''True'' ''USSR'' ''5'',
      raw ''1972'' ''Pioneer 10'' ''Jupiter'' ''True'' ''USA'' ''8'',
      raw ''1973'' ''Pioneer 11'' ''Jupiter'' ''True'' ''USA'' ''7'',
      raw ''1975'' ''Viking 1'' ''Mars'' ''True'' ''USA'' ''9'',
      raw ''1977'' ''Voyager 1'' ''Outer Planets'' ''True'' ''USA'' ''10'',
      raw ''1980'' ''Test Mission'' ''Earth'' ''False'' ''USSR'' ''2'']"

definition rec :: "int \<Rightarrow> string \<Rightarrow> string \<Rightarrow> bool \<Rightarrow> string \<Rightarrow> int \<Rightarrow> mission" where
  "rec y n t s c i =
     \<lparr>year = y, success = s, scientific_impact = i,
      columns = [(''mission_name'', Some n), (''mission_type'', Some t),
                 (''participating_countries'', Some c)]\<rparr>"

definition sample_data :: "mission list" where
  "sample_data =
     [rec 1971 ''Mars 1'' ''Mars'' True ''USSR'' 5,
      rec 1972 ''Pioneer 10'' ''Jupiter'' True ''USA'' 8,
      rec 1973 ''Pioneer 11'' ''Jupiter'' True ''USA'' 7,
      rec 1975 ''Viking 1'' ''Mars'' True ''USA'' 9,
      rec 1977 ''Voyager 1'' ''Outer Planets'' True ''USA'' 10,
      rec 1980 ''Test Mission'' ''Earth'' False ''USSR'' 2]"

section \<open>The reporter\<close>

text \<open>
  \<^verbatim>\<open>a / b\<close> on ints is the quotient rounded to the nearest double, ZeroDivisionError for
  a zero divisor and OverflowError (\<^verbatim>\<open>integer division result too large for a float\<close>)
  when the quotient is beyond the doubles. \<^verbatim>\<open>x * y\<close> on doubles is the rounded product;
  the products of this program are percentages and stay far below \<open>2\<^sup>1\<^sup>0\<^sup>2\<^sup>4\<close>.
\<close>

definition int_truediv :: "int \<Rightarrow> int \<Rightarrow> error + double" where
  "int_truediv a b =
     (if b = 0 then Inl ZeroDivisionError
      else let v = round_double (of_int a / of_int b)
           in if 2 ^ 1024 \<le> \<bar>v\<bar> then Inl OverflowError else Inr v)"

definition float_mul :: "double \<Rightarrow> double \<Rightarrow> double" where
  "float_mul x y = round_double (x * y)"

text \<open>
  \<^verbatim>\<open>str(i)\<close> for an int (\<open>digits\<close> gives the decimal digits of an int that is not
  negative), and the format \<^verbatim>\<open>{x:.1f}\<close> of a double: the decimal digits of the nearest
  multiple of one tenth, a tie going to the even one, after the sign.
  \<^verbatim>\<open>s.split('/')\<close> cuts a string at every slash.
\<close>

definition digit_char :: "int \<Rightarrow> char" where
  "digit_char d = ''0123456789'' ! nat d"

function digits :: "int \<Rightarrow> string" where
  "digits n = (if n < 10 then [digit_char n] else digits (n div 10) @ [digit_char (n mod 10)])"
  by pat_completeness auto
termination
  by (relation "measure nat") auto

declare digits.simps [simp del]

definition str_of_int :: "int \<Rightarrow> string" where
  "str_of_int i = (if i < 0 then ''-'' @ digits (- i) else digits i)"

definition format_1f :: "double \<Rightarrow> string" where
  "format_1f x =
     (let r = round_even (\<bar>x\<bar> * 10)
      in (if x < 0 then ''-'' else '''') @ digits (r div 10) @ ''.'' @ digits (r mod 10))"

fun str_of_val :: "val \<Rightarrow> string" where
  "str_of_val VNone = ''None''"
| "str_of_val (VBool b) = (if b then ''True'' else ''False'')"
| "str_of_val (VInt i) = str_of_int i"
| "str_of_val (VStr s) = s"

fun split_on :: "char \<Rightarrow> string \<Rightarrow> string list" where
  "split_on sep [] = [[]]"
| "split_on sep (c # cs) =
     (if c = sep then [] # split_on sep cs
      else (case split_on sep cs of [] \<Rightarrow> [[c]] | w # ws \<Rightarrow> (c # w) # ws))"

text \<open>
  \<^verbatim>\<open>collections.Counter\<close> as the dictionary it is: the keys in the order of their first
  occurrence, each with the number of its occurrences. \<^verbatim>\<open>most_common()\<close> sorts the
  entries by count, largest first; the sort is stable, so entries of equal count stay
  in the order of the dictionary.
\<close>

fun count_elem :: "'a \<Rightarrow> ('a \<times> nat) list \<Rightarrow> ('a \<times> nat) list" where
  "count_elem x [] = [(x, 1)]"
| "count_elem x ((k, c) # rest) =
     (if k = x then (k, c + 1) # rest else (k, c) # count_elem x rest)"

definition Counter :: "'a list \<Rightarrow> ('a \<times> nat) list" where
  "Counter xs = fold count_elem xs []"

definition most_common :: "('a \<times> nat) list \<Rightarrow> ('a \<times> nat) list" where
  "most_common items = sort_key (\<lambda>(k, c). - int c) items"

text \<open>\<^verbatim>\<open>min\<close> and \<^verbatim>\<open>max\<close> of a list; on an empty list they raise ValueError.\<close>

fun py_min :: "int list \<Rightarrow> error + int" where
  "py_min [] = Inl ValueError"
| "py_min (x # xs) = Inr (fold min xs x)"

fun py_max :: "int list \<Rightarrow> error + int" where
  "py_max [] = Inl ValueError"
| "py_max (x # xs) = Inr (fold max xs x)"

text \<open>
  \<^verbatim>\<open>[row[column] for row in data]\<close>, and the loop that collects the countries:
  \<^verbatim>\<open>
      countries = []
      for row in data:
          countries.extend(row['participating_countries'].split('/'))
  \<close>
\<close>

fun column_values :: "string \<Rightarrow> mission list \<Rightarrow> error + val list" where
  "column_values column [] = Inr []"
| "column_values column (row # data) =
     (case getitem row column of
        Inl e \<Rightarrow> Inl e
      | Inr x \<Rightarrow> (case column_values column data of Inl e \<Rightarrow> Inl e | Inr xs \<Rightarrow> Inr (x # xs)))"

fun str_split :: "val \<Rightarrow> error + string list" where
  "str_split (VStr s) = Inr (split_on CHR ''/'' s)"
| "str_split (VInt i) = Inl AttributeError"
| "str_split (VBool b) = Inl AttributeError"
| "str_split VNone = Inl AttributeError"

fun countries_loop :: "string list \<Rightarrow> mission list \<Rightarrow> error + string list" where
  "countries_loop countries [] = Inr countries"
| "countries_loop countries (row # data) =
     (case getitem row ''participating_countries'' of
        Inl e \<Rightarrow> Inl e
      | Inr x \<Rightarrow>
          (case str_split x of
             Inl e \<Rightarrow> Inl e
           | Inr parts \<Rightarrow> countries_loop (countries @ parts) data))"

text \<open>
  \<^verbatim>\<open>
  def generate_summary(data):
      if not data:
          return
      print("\n=== Summary Statistics ===")
      years = [row['year'] for row in data]
      year_counts = Counter(years)
      print(f"Total missions: {len(data)}")
      print(f"Years covered: {min(years)} to {max(years)}")
      success_count = sum(1 for row in data if row['success'])
      success_rate = (success_count / len(data)) * 100
      print(f"Success rate: {success_rate:.1f}%")
      avg_impact = sum(row['scientific_impact'] for row in data) / len(data)
      print(f"Average scientific impact: {avg_impact:.1f}")
      types = [row['mission_type'] for row in data]
      type_counts = Counter(types)
      print("\nMission types breakdown:")
      for mission_type, count in type_counts.most_common():
          print(f"  {mission_type}: {count} missions")
      countries = []
      for row in data:
          countries.extend(row['participating_countries'].split('/'))
      country_counts = Counter(countries)
      print("\nParticipating countries breakdown:")
      for country, count in country_counts.most_common():
          print(f"  {country}: {count} missions")
  \<close>
  The result is the list of the strings printed, one for each call of \<^verbatim>\<open>print\<close>, and
  the exception that ended the function, if one did.
\<close>

definition breakdown_line :: "string \<Rightarrow> nat \<Rightarrow> string" where
  "breakdown_line name count = ''  '' @ name @ '': '' @ str_of_int (int count) @ '' missions''"

definition generate_summary :: "mission list \<Rightarrow> string list \<times> error option" where
  "generate_summary data =
     (if data = [] then ([], None)
      else
        let years = map year data;
            out1 = [[CHR 0x0A] @ ''=== Summary Statistics ==='',
                    ''Total missions: '' @ str_of_int (int (length data))]
        in (case py_min years of
              Inl e \<Rightarrow> (out1, Some e)
            | Inr first_year \<Rightarrow>
           (case py_max years of
              Inl e \<Rightarrow> (out1, Some e)
            | Inr last_year \<Rightarrow>
        let out2 = out1 @ [''Years covered: '' @ str_of_int first_year @ '' to '' @
                             str_of_int last_year];
            success_count = int (length (filter success data))
        in (case int_truediv success_count (int (length data)) of
              Inl e \<Rightarrow> (out2, Some e)
            | Inr q \<Rightarrow>
        let success_rate = float_mul q 100;
            out3 = out2 @ [''Success rate: '' @ format_1f success_rate @ ''%'']
        in (case int_truediv (sum_list (map scientific_impact data)) (int (length data)) of
              Inl e \<Rightarrow> (out3, Some e)
            | Inr avg_impact \<Rightarrow>
        let out4 = out3 @ [''Average scientific impact: '' @ format_1f avg_impact]
        in (case column_values ''mission_type'' data of
              Inl e \<Rightarrow> (out4, Some e)
            | Inr types \<Rightarrow>
        let out5 = out4 @ [[CHR 0x0A] @ ''Mission types breakdown:''] @
              map (\<lambda>(mission_type, count). breakdown_line (str_of_val mission_type) count)
                (most_common (Counter types))
        in (case countries_loop [] data of
              Inl e \<Rightarrow> (out5, Some e)
            | Inr countries \<Rightarrow>
                (out5 @ [[CHR 0x0A] @ ''Participating countries breakdown:''] @
                   map (\<lambda>(country, count). breakdown_line country count)
                     (most_common (Counter countries)),
                 None))))))))"

section \<open>The chart renderer\<close>

text \<open>
  Sum and difference of doubles, and \<^verbatim>\<open>x / n\<close> for a double and an int: the int is
  converted to a double first, a zero divisor raises ZeroDivisionError. The sums and
  quotients of this program are at most 100 times the number of rows in size.
\<close>

definition float_add :: "double \<Rightarrow> double \<Rightarrow> double" where
  "float_add x y = round_double (x + y)"

definition float_sub :: "double \<Rightarrow> double \<Rightarrow> double" where
  "float_sub x y = round_double (x - y)"

definition float_truediv_int :: "double \<Rightarrow> int \<Rightarrow> error + double" where
  "float_truediv_int x n =
     (case float_of_int n of
        Inl e \<Rightarrow> Inl e
      | Inr y \<Rightarrow> if y = 0 then Inl ZeroDivisionError else Inr (round_double (x / y)))"

text \<open>
  \<^verbatim>\<open>sum\<close> on a list of floats. Up to CPython 3.11 the items are added from left to
  right, each sum rounded (\<open>sum_plain\<close>). From CPython 3.12 on the rounding errors are
  collected in a second double and added at the end (\<open>sum_compensated\<close>, after
  Neumaier): with \<open>t\<close> the rounded sum of \<open>s\<close> and \<open>x\<close>, the error is \<open>(s - t) + x\<close> when
  \<open>s\<close> is the larger of the two in absolute value and \<open>(x - t) + s\<close> otherwise. The
  model takes which of the two it is as its first argument.
\<close>

fun sum_plain :: "double \<Rightarrow> double list \<Rightarrow> double" where
  "sum_plain s [] = s"
| "sum_plain s (x # xs) = sum_plain (float_add s x) xs"

fun sum_compensated :: "double \<Rightarrow> double \<Rightarrow> double list \<Rightarrow> double" where
  "sum_compensated s c [] = (if c = 0 then s else float_add s c)"
| "sum_compensated s c (x # xs) =
     (let t = float_add s x;
          c' = (if \<bar>x\<bar> \<le> \<bar>s\<bar> then float_add c (float_add (float_sub s t) x)
                else float_add c (float_add (float_sub x t) s))
      in sum_compensated t c' xs)"

definition py_sum :: "bool \<Rightarrow> double list \<Rightarrow> double" where
  "py_sum compensated xs = (if compensated then sum_compensated 0 0 xs else sum_plain 0 xs)"

text \<open>
  The two dictionaries from years to counts are lists of pairs in the order of
  insertion. \<^verbatim>\<open>d[k] += 1\<close> and \<^verbatim>\<open>d[k]\<close> raise KeyError for a key that is missing.
\<close>

type_synonym year_dict = "(int \<times> int) list"

fun incr :: "int \<Rightarrow> year_dict \<Rightarrow> error + year_dict" where
  "incr k [] = Inl KeyError"
| "incr k ((k', v) # d) =
     (if k' = k then Inr ((k', v + 1) # d)
      else (case incr k d of Inl e \<Rightarrow> Inl e | Inr d' \<Rightarrow> Inr ((k', v) # d')))"

definition dict_get :: "year_dict \<Rightarrow> int \<Rightarrow> error + int" where
  "dict_get d k = (case map_of d k of None \<Rightarrow> Inl KeyError | Some v \<Rightarrow> Inr v)"

text \<open>
  \<^verbatim>\<open>
      for row in data:
          year = row['year']
          total_by_year[year] += 1
          if row['success']:
              success_by_year[year] += 1
  \<close>
\<close>

fun count_loop :: "year_dict \<Rightarrow> year_dict \<Rightarrow> mission list \<Rightarrow> error + (year_dict \<times> year_dict)" where
  "count_loop success_by_year total_by_year [] = Inr (success_by_year, total_by_year)"
| "count_loop success_by_year total_by_year (row # data) =
     (case incr (year row) total_by_year of
        Inl e \<Rightarrow> Inl e
      | Inr total' \<Rightarrow>
          if success row
          then (case incr (year row) success_by_year of
                  Inl e \<Rightarrow> Inl e
                | Inr success' \<Rightarrow> count_loop success' total' data)
          else count_loop success_by_year total' data)"

text \<open>
  \<^verbatim>\<open>
      success_rates = [
          (success_by_year[year] / total_by_year[year]) * 100
          if total_by_year[year] > 0 else 0
          for year in years
      ]
  \<close>
\<close>

definition success_rate_of :: "year_dict \<Rightarrow> year_dict \<Rightarrow> int \<Rightarrow> error + double" where
  "success_rate_of success_by_year total_by_year y =
     (case dict_get total_by_year y of
        Inl e \<Rightarrow> Inl e
      | Inr t \<Rightarrow>
          if 0 < t
          then (case dict_get success_by_year y of
                  Inl e \<Rightarrow> Inl e
                | Inr s \<Rightarrow>
                    (case int_truediv s t of
                       Inl e \<Rightarrow> Inl e
                     | Inr q \<Rightarrow> Inr (float_mul q 100)))
          else Inr 0)"

fun success_rates_of :: "year_dict \<Rightarrow> year_dict \<Rightarrow> int list \<Rightarrow> error + double list" where
  "success_rates_of success_by_year total_by_year [] = Inr []"
| "success_rates_of success_by_year total_by_year (y # years) =
     (case success_rate_of success_by_year total_by_year y of
        Inl e \<Rightarrow> Inl e
      | Inr r \<Rightarrow>
          (case success_rates_of success_by_year total_by_year years of
             Inl e \<Rightarrow> Inl e
           | Inr rs \<Rightarrow> Inr (r # rs)))"

text \<open>
  \<^verbatim>\<open>
  def plot_mission_success(data, output_file=None):
      if not data:
          return False
      years = sorted(set(row['year'] for row in data))
      success_by_year = {}
      total_by_year = {}
      for year in years:
          success_by_year[year] = 0
          total_by_year[year] = 0
      for row in data: ...
      years = list(total_by_year.keys())
      success_rates = [...]
      plt.figure(figsize=(12, 6))
      plt.bar(years, success_rates, color='steelblue')
      plt.axhline(y=sum(success_rates)/len(success_rates), color='r', linestyle='-',
                  label='Average')
      ...
      if output_file:
          plt.savefig(output_file)
          print(f"Plot saved to {output_file}")
          return True
      else:
          plt.show()
          return True
  \<close>
  What is drawn is a \<open>chart\<close>: the years and the heights given to \<^verbatim>\<open>plt.bar\<close> and the
  height given to \<^verbatim>\<open>plt.axhline\<close>. The result of the model is the lines printed and
  the chart, \<open>None\<close> where the function returns \<^verbatim>\<open>False\<close> and draws nothing.
\<close>

record chart =
  bar_years :: "int list"
  bar_heights :: "double list"
  average_line :: double

definition plot_mission_success ::
  "bool \<Rightarrow> mission list \<Rightarrow> string option \<Rightarrow> error + (string list \<times> chart option)" where
  "plot_mission_success compensated data output_file =
     (if data = [] then Inr ([], None)
      else
        let years = sort (remdups (map year data));
            zeros = map (\<lambda>y. (y, 0)) years
        in (case count_loop zeros zeros data of
              Inl e \<Rightarrow> Inl e
            | Inr (success_by_year, total_by_year) \<Rightarrow>
        let years = map fst total_by_year
        in (case success_rates_of success_by_year total_by_year years of
              Inl e \<Rightarrow> Inl e
            | Inr success_rates \<Rightarrow>
        (case float_truediv_int (py_sum compensated success_rates)
                (int (length success_rates)) of
           Inl e \<Rightarrow> Inl e
         | Inr average \<Rightarrow>
             Inr ((case output_file of
                     None \<Rightarrow> []
                   | Some file \<Rightarrow> if file = [] then [] else [''Plot saved to '' @ file]),
                  Some \<lparr>bar_years = years, bar_heights = success_rates,
                        average_line = average\<rparr>)))))"

section \<open>Notions of the specification\<close>

text \<open>
  A row that holds text in a column, and that text; they state which rows a claim is
  about.
\<close>

definition has_text :: "string \<Rightarrow> mission \<Rightarrow> bool" where
  "has_text column row =
     (case map_of (columns row) column of Some (Some s) \<Rightarrow> True | _ \<Rightarrow> False)"

definition text_column :: "string \<Rightarrow> mission \<Rightarrow> string" where
  "text_column column row =
     (case map_of (columns row) column of Some (Some s) \<Rightarrow> s | _ \<Rightarrow> [])"

text \<open>
  The breakdown of a list, as the specification words it: each distinct element once,
  with the number of its occurrences, the most frequent first, elements of equal
  frequency in the order of their first occurrence.
\<close>

definition first_index :: "'a list \<Rightarrow> 'a \<Rightarrow> nat" where
  "first_index xs x = length (takeWhile (\<lambda>y. y \<noteq> x) xs)"

definition spec_breakdown :: "'a list \<Rightarrow> ('a \<times> nat) list \<Rightarrow> bool" where
  "spec_breakdown xs b =
     (distinct (map fst b) \<and> set (map fst b) = set xs \<and>
      (\<forall>(k, c)\<in>set b. c = count_list xs k) \<and>
      sorted_wrt (\<lambda>(k, c) (k', c'). c' < c \<or> (c' = c \<and> first_index xs k < first_index xs k')) b)"

text \<open>
  The missions of a year, the successful ones among them, and the success rate of the
  year as a percentage, computed in double precision as the program does.
\<close>

definition successes_in :: "mission list \<Rightarrow> int \<Rightarrow> nat" where
  "successes_in data y = length (filter (\<lambda>row. year row = y \<and> success row) data)"

definition missions_in :: "mission list \<Rightarrow> int \<Rightarrow> nat" where
  "missions_in data y = length (filter (\<lambda>row. year row = y) data)"

definition spec_rate :: "mission list \<Rightarrow> int \<Rightarrow> double" where
  "spec_rate data y =
     round_double (round_double (of_nat (successes_in data y) / of_nat (missions_in data y)) * 100)"

text \<open>A table with two missions in one year, for the chart.\<close>

definition voyagers :: "mission list" where
  "voyagers =
     [rec 1977 ''Voyager 2'' ''Outer Planets'' True ''USA'' 10,
      rec 1977 ''Voyager 1'' ''Outer Planets'' True ''USA'' 10,
      rec 1973 ''Mars 4'' ''Mars'' False ''USSR'' 3]"

section \<open>Properties of the loader\<close>

lemma load_loop_append:
  "load_loop acc rows = (case load_loop [] rows of Inl e \<Rightarrow> Inl e | Inr ms \<Rightarrow> Inr (acc @ ms))"
proof (induction rows arbitrary: acc)
  case Nil
  show ?case by simp
next
  case (Cons row rows)
  show ?case
  proof (cases "load_row row")
    case (Inl e)
    then show ?thesis by simp
  next
    case (Inr m)
    have a: "load_loop (acc @ [m]) rows =
        (case load_loop [] rows of Inl e \<Rightarrow> Inl e | Inr ms \<Rightarrow> Inr ((acc @ [m]) @ ms))"
      by (rule Cons.IH)
    have b: "load_loop [m] rows =
        (case load_loop [] rows of Inl e \<Rightarrow> Inl e | Inr ms \<Rightarrow> Inr ([m] @ ms))"
      by (rule Cons.IH)
    show ?thesis
      by (cases "load_loop [] rows") (simp_all add: Inr a b)
  qed
qed

lemma load_loop_Cons:
  "load_loop [] (row # rows) =
     (case load_row row of
        Inl e \<Rightarrow> Inl e
      | Inr m \<Rightarrow> (case load_loop [] rows of Inl e \<Rightarrow> Inl e | Inr ms \<Rightarrow> Inr (m # ms)))"
proof (cases "load_row row")
  case (Inl e)
  then show ?thesis by simp
next
  case (Inr m)
  have "load_loop [m] rows =
      (case load_loop [] rows of Inl e \<Rightarrow> Inl e | Inr ms \<Rightarrow> Inr ([m] @ ms))"
    by (rule load_loop_append)
  then show ?thesis using Inr by (cases "load_loop [] rows") simp_all
qed

lemma load_loop_Inr:
  "(load_loop [] rows = Inr data) = list_all2 (\<lambda>row m. load_row row = Inr m) rows data"
proof (induction rows arbitrary: data)
  case Nil
  show ?case by auto
next
  case (Cons row rows)
  show ?case
  proof (cases "load_row row")
    case (Inl e)
    then show ?thesis unfolding load_loop_Cons by (simp add: list_all2_Cons1)
  next
    case m: (Inr m)
    show ?thesis
    proof (cases "load_loop [] rows")
      case (Inl e)
      then have "\<not> list_all2 (\<lambda>row m. load_row row = Inr m) rows ms" for ms
        using Cons.IH [of ms] by simp
      then show ?thesis unfolding load_loop_Cons using m Inl by (simp add: list_all2_Cons1)
    next
      case (Inr ms)
      then have "list_all2 (\<lambda>row m. load_row row = Inr m) rows ms' \<longleftrightarrow> ms' = ms" for ms'
        using Cons.IH [of ms'] by auto
      then show ?thesis unfolding load_loop_Cons using m Inr by (auto simp add: list_all2_Cons1)
    qed
  qed
qed


lemma load_row_Inr:
  "load_row row = Inr m \<Longrightarrow>
     (\<exists>ys. map_of row ''year'' = Some (Some ys) \<and> int_of_str ys = Some (year m)) \<and>
     (\<exists>ss. map_of row ''success'' = Some (Some ss) \<and> success m = (lower ss = ''true'')) \<and>
     (\<exists>is. map_of row ''scientific_impact'' = Some (Some is) \<and>
        int_of_str is = Some (scientific_impact m)) \<and>
     columns m = filter (\<lambda>(k, v). k \<notin> set typed_keys) row"
  by (auto simp: load_row_def split: option.splits)

lemma load_row_parsable: "parsable row \<Longrightarrow> \<exists>m. load_row row = Inr m"
  by (auto simp: load_row_def parsable_def split: option.splits)

lemma load_loop_parsable: "list_all parsable reader \<Longrightarrow> \<exists>data. load_loop [] reader = Inr data"
proof (induction reader)
  case Nil
  show ?case by simp
next
  case (Cons row reader)
  from Cons.prems have "parsable row" and rest: "list_all parsable reader" by simp_all
  then obtain m where m: "load_row row = Inr m"
    using load_row_parsable by blast
  from Cons.IH [OF rest] obtain ms where ms: "load_loop [] reader = Inr ms" by blast
  show ?case unfolding load_loop_Cons using m ms by simp
qed

text \<open>
  Claim C6. For every data row of a file that loads, \<open>load_data\<close> parses \<open>year\<close> and
  \<open>scientific_impact\<close> as integers, sets \<open>success\<close> to true exactly when the text of
  the cell lower-cases to \<open>true\<close> (any other text gives false and no error: a file
  whose rows have the two numbers and some text for \<open>success\<close> always loads), keeps the
  other cells as they are, and returns the records in the order of the file.
\<close>

theorem load_data_rows:
  "(list_all parsable reader \<longrightarrow> (\<exists>data. load_data (Some reader) = Inr data)) \<and>
   (load_data (Some reader) = Inr data \<longrightarrow>
      list_all2 (\<lambda>row m.
        (\<exists>ys. map_of row ''year'' = Some (Some ys) \<and> int_of_str ys = Some (year m)) \<and>
        (\<exists>ss. map_of row ''success'' = Some (Some ss) \<and> success m = (lower ss = ''true'')) \<and>
        (\<exists>is. map_of row ''scientific_impact'' = Some (Some is) \<and>
           int_of_str is = Some (scientific_impact m)) \<and>
        columns m = filter (\<lambda>(k, v). k \<notin> set typed_keys) row) reader data)"
proof (intro conjI impI)
  assume "list_all parsable reader"
  then obtain data where "load_loop [] reader = Inr data"
    using load_loop_parsable by blast
  then show "\<exists>data. load_data (Some reader) = Inr data" by (simp add: load_data_def)
next
  assume "load_data (Some reader) = Inr data"
  then have "load_loop [] reader = Inr data"
    by (simp add: load_data_def split: sum.splits)
  then have "list_all2 (\<lambda>row m. load_row row = Inr m) reader data"
    by (simp add: load_loop_Inr)
  then show "list_all2 (\<lambda>row m.
        (\<exists>ys. map_of row ''year'' = Some (Some ys) \<and> int_of_str ys = Some (year m)) \<and>
        (\<exists>ss. map_of row ''success'' = Some (Some ss) \<and> success m = (lower ss = ''true'')) \<and>
        (\<exists>is. map_of row ''scientific_impact'' = Some (Some is) \<and>
           int_of_str is = Some (scientific_impact m)) \<and>
        columns m = filter (\<lambda>(k, v). k \<notin> set typed_keys) row) reader data"
    by (rule list_all2_mono) (rule load_row_Inr)
qed

theorem load_data_rows_witness:
  "list_all parsable sample_file \<and> load_data (Some sample_file) = Inr sample_data \<and>
   list_all2 (\<lambda>row m.
        (\<exists>ys. map_of row ''year'' = Some (Some ys) \<and> int_of_str ys = Some (year m)) \<and>
        (\<exists>ss. map_of row ''success'' = Some (Some ss) \<and> success m = (lower ss = ''true'')) \<and>
        (\<exists>is. map_of row ''scientific_impact'' = Some (Some is) \<and>
           int_of_str is = Some (scientific_impact m)) \<and>
        columns m = filter (\<lambda>(k, v). k \<notin> set typed_keys) row) sample_file sample_data \<and>
   map year sample_data = [1971, 1972, 1973, 1975, 1977, 1980] \<and>
   map success sample_data = [True, True, True, True, True, False]"
proof -
  have p: "list_all parsable sample_file" by code_simp
  have l: "load_data (Some sample_file) = Inr sample_data" by code_simp
  have y: "map year sample_data = [1971, 1972, 1973, 1975, 1977, 1980]"
    by (simp add: sample_data_def rec_def)
  have s: "map success sample_data = [True, True, True, True, True, False]"
    by (simp add: sample_data_def rec_def)
  show ?thesis using load_data_rows [of sample_file sample_data] p l y s by simp
qed


section \<open>Properties of the floating-point operations\<close>

lemma bit_length_pos: "0 < n \<Longrightarrow> 1 \<le> bit_length n"
proof -
  assume "0 < n"
  have "0 \<le> bit_length m" for m
    by (induction m rule: bit_length.induct) (subst bit_length.simps, simp)
  then have "0 \<le> bit_length (n div 2)" .
  then show ?thesis using \<open>0 < n\<close> by (subst bit_length.simps) simp
qed

lemma bit_length_nonneg: "0 \<le> bit_length n"
  by (induction n rule: bit_length.induct) (subst bit_length.simps, simp)

lemma bit_length_bounds:
  "0 < n \<Longrightarrow> 2 ^ nat (bit_length n - 1) \<le> n \<and> n < 2 ^ nat (bit_length n)"
proof (induction n rule: bit_length.induct)
  case (1 n)
  show ?case
  proof (cases "n = 1")
    case True
    have "bit_length 1 = 1" by (simp add: bit_length.simps)
    then show ?thesis using True by simp
  next
    case False
    with "1.prems" have h: "0 < n div 2" by simp
    from "1.IH" h "1.prems" have IH: "2 ^ nat (bit_length (n div 2) - 1) \<le> n div 2"
      "n div 2 < 2 ^ nat (bit_length (n div 2))" by simp_all
    have bl: "bit_length n = 1 + bit_length (n div 2)"
      using "1.prems" by (subst bit_length.simps) simp
    have p: "1 \<le> bit_length (n div 2)" using h by (rule bit_length_pos)
    have e1: "nat (bit_length n - 1) = Suc (nat (bit_length (n div 2) - 1))"
      using p bl by simp
    have e2: "nat (bit_length n) = Suc (nat (bit_length (n div 2)))"
      using p bl by simp
    define a where "a = (2::int) ^ nat (bit_length (n div 2) - 1)"
    define b where "b = (2::int) ^ nat (bit_length (n div 2))"
    have "a \<le> n div 2" "n div 2 < b" using IH unfolding a_def b_def by simp_all
    then have "2 * a \<le> n \<and> n < 2 * b" by linarith
    then show ?thesis unfolding e1 e2 a_def b_def by simp
  qed
qed

lemma isqrt_nonneg: "0 \<le> isqrt n"
  by (induction n rule: isqrt.induct) (subst isqrt.simps, simp add: Let_def)

lemma isqrt_bounds:
  "0 \<le> n \<Longrightarrow> isqrt n * isqrt n \<le> n \<and> n < (isqrt n + 1) * (isqrt n + 1)"
proof (induction n rule: isqrt.induct)
  case (1 n)
  show ?case
  proof (cases "n < 4")
    case True
    then show ?thesis using "1.prems" by (subst (1 2 3 4) isqrt.simps) auto
  next
    case False
    define q where "q = isqrt (n div 4)"
    have q0: "0 \<le> q" unfolding q_def by (rule isqrt_nonneg)
    from "1.IH" False "1.prems" have IH: "q * q \<le> n div 4" "n div 4 < (q + 1) * (q + 1)"
      unfolding q_def by simp_all
    have lo: "(2 * q) * (2 * q) \<le> n" using IH(1) by (simp add: algebra_simps)
    have "n div 4 + 1 \<le> (q + 1) * (q + 1)" using IH(2) by simp
    then have hi: "n < (2 * q + 2) * (2 * q + 2)" by (simp add: algebra_simps)
    have unf: "isqrt n = (if (2 * q + 1) * (2 * q + 1) \<le> n then 2 * q + 1 else 2 * q)"
      using False by (subst isqrt.simps) (simp add: Let_def q_def)
    show ?thesis
    proof (cases "(2 * q + 1) * (2 * q + 1) \<le> n")
      case True
      then show ?thesis unfolding unf using hi by (simp add: algebra_simps)
    next
      case False
      then show ?thesis unfolding unf using lo by (simp add: algebra_simps)
    qed
  qed
qed

lemma sqrt_scaled:
  fixes s m n T :: int
  assumes s: "0 \<le> s" "s * s \<le> n" "n < (s + 1) * (s + 1)"
    and m: "0 \<le> m" "m * m \<le> n * (T * T)" "n * (T * T) < (m + 1) * (m + 1)"
    and T: "s < T"
  shows "m div T = s \<and> (m * m + m < n * (T * T) \<longrightarrow> (m + 1) div T = s)"
proof -
  have T0: "0 < T" using s(1) T by simp
  have lo: "s * T \<le> m"
  proof (rule ccontr)
    assume "\<not> s * T \<le> m"
    then have "m + 1 \<le> s * T" by simp
    then have "(m + 1) * (m + 1) \<le> (s * T) * (s * T)"
      using m(1) by (intro mult_mono) simp_all
    also have "\<dots> = (s * s) * (T * T)" by (simp add: algebra_simps)
    also have "\<dots> \<le> n * (T * T)" using s(2) by (intro mult_right_mono) simp_all
    finally show False using m(3) by simp
  qed
  have hi: "m < (s + 1) * T"
  proof (rule ccontr)
    assume "\<not> m < (s + 1) * T"
    then have "(s + 1) * T \<le> m" by simp
    then have "((s + 1) * T) * ((s + 1) * T) \<le> m * m"
      using s(1) T0 m(1) by (intro mult_mono) simp_all
    then have "((s + 1) * (s + 1)) * (T * T) \<le> n * (T * T)"
      using m(2) by (simp add: algebra_simps)
    then have "(s + 1) * (s + 1) \<le> n" using T0 by simp
    then show False using s(3) by simp
  qed
  have between: "x div T = s" if "s * T \<le> x" "x < (s + 1) * T" for x
  proof -
    define r where "r = x - s * T"
    have r: "0 \<le> r" "r < T" using that unfolding r_def by (simp_all add: algebra_simps)
    have "x = s * T + r" unfolding r_def by simp
    then have "x div T = s + r div T" using T0 by simp
    then show ?thesis using r by simp
  qed
  have d1: "m div T = s" using lo hi by (rule between)
  have d2: "(m + 1) div T = s" if up: "m * m + m < n * (T * T)"
  proof -
    have "m + 1 \<noteq> (s + 1) * T"
    proof
      assume eq: "m + 1 = (s + 1) * T"
      have "m * m + m = (m + 1) * (m + 1) - (m + 1)" by (simp add: algebra_simps)
      also have "\<dots> = ((s + 1) * (s + 1)) * (T * T) - (s + 1) * T"
        unfolding eq by (simp add: algebra_simps)
      finally have a: "((s + 1) * (s + 1)) * (T * T) - (s + 1) * T < n * (T * T)"
        using up by simp
      have "n + 1 \<le> (s + 1) * (s + 1)" using s(3) by simp
      then have "(n + 1) * (T * T) \<le> ((s + 1) * (s + 1)) * (T * T)"
        using T0 by (intro mult_right_mono) simp_all
      then have "T * T < (s + 1) * T" using a by (simp add: algebra_simps)
      then have "T < s + 1" using T0 by simp
      then show False using T by simp
    qed
    then have "m + 1 < (s + 1) * T" using hi by simp
    moreover have "s * T \<le> m + 1" using lo by simp
    ultimately show ?thesis by (intro between)
  qed
  show ?thesis using d1 d2 by simp
qed

lemma pow2_pos: "0 < pow2 k"
  by (simp add: pow2_def)

lemma pow2_neg: "k \<le> 0 \<Longrightarrow> pow2 k = 1 / of_int (2 ^ nat (- k))"
  by (simp add: pow2_def)

lemma pow2_nonneg: "0 \<le> k \<Longrightarrow> pow2 k = of_int (2 ^ nat k)"
  by (simp add: pow2_def)

lemma round_even_of_int: "round_even (of_int z) = z"
  by (simp add: round_even_def)

lemma floor_log2_of_int: "1 \<le> n \<Longrightarrow> floor_log2 (of_int n) = bit_length n - 1"
  by (simp add: floor_log2_def)

lemma bit_length_le:
  assumes "0 < n" "n < 2 ^ k"
  shows "bit_length n \<le> int k"
proof (rule ccontr)
  assume "\<not> bit_length n \<le> int k"
  then have "k \<le> nat (bit_length n - 1)" by simp
  then have "(2::int) ^ k \<le> 2 ^ nat (bit_length n - 1)" by (intro power_increasing) simp_all
  also have "\<dots> \<le> n" using bit_length_bounds [OF assms(1)] by simp
  finally show False using assms(2) by simp
qed

lemma round_double_of_int:
  assumes "0 \<le> n" "n < 2 ^ 53"
  shows "round_double (of_int n) = of_int n"
proof (cases "n = 0")
  case True
  then show ?thesis by (simp add: round_double_def)
next
  case False
  with assms have n: "1 \<le> n" by simp
  then have pos: "0 < n" by simp
  define e where "e = bit_length n - 53"
  have bl: "bit_length n \<le> 53" using bit_length_le [OF pos assms(2)] by simp
  have bl1: "1 \<le> bit_length n" using pos by (rule bit_length_pos)
  have e: "e \<le> 0" "- 1074 \<le> e" using bl bl1 unfolding e_def by simp_all
  have ab: "\<bar>of_int n :: rat\<bar> = of_int n" using n by simp
  have fl: "floor_log2 (of_int n) - 52 = e"
    using floor_log2_of_int [OF n] unfolding e_def by simp
  have nz: "(of_int n :: rat) \<noteq> 0" "\<not> (of_int n :: rat) < 0" using n by simp_all
  have mx: "max e (- 1074) = e" using e by simp
  define T :: int where "T = 2 ^ nat (- e)"
  have T: "0 < T" unfolding T_def by simp
  have p: "pow2 e = 1 / of_int T" using e(1) unfolding T_def by (rule pow2_neg)
  have q: "(of_int n :: rat) / pow2 e = of_int (n * T)" using n T unfolding p by simp
  have "round_double (of_int n) = of_int (round_even (of_int n / pow2 e)) * pow2 e"
    unfolding round_double_def Let_def ab fl mx using nz by (simp only: if_False)
  also have "\<dots> = of_int (n * T) * pow2 e"
    by (simp only: q round_even_of_int)
  also have "\<dots> = of_int (n * T) * (1 / of_int T)"
    by (simp only: p)
  also have "\<dots> = of_int n" using T by simp
  finally show ?thesis .
qed

lemma float_of_int_exact:
  assumes "0 \<le> n" "n < 2 ^ 53"
  shows "float_of_int n = Inr (of_int n)"
proof -
  have "(of_int n :: rat) < of_int (2 ^ 53)" using assms(2) by (simp only: of_int_less_iff)
  also have "\<dots> \<le> 2 ^ 1024" by simp
  finally have "\<not> (2 ^ 1024 \<le> \<bar>of_int n :: rat\<bar>)" using assms(1) by simp
  then show ?thesis
    unfolding float_of_int_def round_double_of_int [OF assms] Let_def by (simp del: of_int_abs)
qed

lemma float_sqrt_trunc:
  assumes "1 \<le> n" "n < 2 ^ 52"
  shows "float_trunc (float_sqrt (of_int n)) = isqrt n"
proof -
  have pos: "0 < n" using assms(1) by simp
  define k where "k = bit_length n - 1"
  have k: "0 \<le> k" "k \<le> 51"
    using bit_length_pos [OF pos] bit_length_le [OF pos assms(2)] unfolding k_def by simp_all
  define e where "e = k div 2 - 52"
  have e: "e \<le> - 27" "- 52 \<le> e" using k unfolding e_def by simp_all
  define T :: int where "T = 2 ^ nat (- e)"
  have T0: "0 < T" unfolding T_def by simp
  have "(2::int) ^ 27 \<le> 2 ^ nat (- e)" using e by (intro power_increasing) simp_all
  then have T27: "2 ^ 27 \<le> T" unfolding T_def .
  have p1: "pow2 e = 1 / of_int T" using e unfolding T_def by (intro pow2_neg) simp
  have "nat (- (2 * e)) = nat (- e) + nat (- e)" using e by simp
  then have "(2::int) ^ nat (- (2 * e)) = T * T" unfolding T_def by (simp add: power_add)
  then have p2: "pow2 (2 * e) = 1 / of_int (T * T)" using e by (simp add: pow2_neg)
  define N where "N = n * (T * T)"
  have X: "(of_int n :: rat) / pow2 (2 * e) = of_int N" using T0 unfolding p2 N_def by simp
  define m where "m = isqrt N"
  have N0: "0 \<le> N" using assms(1) T0 unfolding N_def by simp
  have m: "0 \<le> m" "m * m \<le> N" "N < (m + 1) * (m + 1)"
    using isqrt_nonneg isqrt_bounds [OF N0] unfolding m_def by simp_all
  define s where "s = isqrt n"
  have n0: "0 \<le> n" using assms(1) by simp
  have s: "0 \<le> s" "s * s \<le> n" "n < (s + 1) * (s + 1)"
    using isqrt_nonneg isqrt_bounds [OF n0] unfolding s_def by simp_all
  have "s < 2 ^ 26"
  proof (rule ccontr)
    assume "\<not> s < 2 ^ 26"
    then have "2 ^ 26 \<le> s" by simp
    then have "(2 ^ 26) * (2 ^ 26) \<le> s * s" by (intro mult_mono) simp_all
    then show False using s(2) assms(2) by simp
  qed
  then have sT: "s < T" using T27 by simp
  have main: "m div T = s \<and> (m * m + m < N \<longrightarrow> (m + 1) div T = s)"
    using sqrt_scaled [OF s m(1) _ _ sT, of ] m(2,3) unfolding N_def by simp
  define h :: rat where "h = (of_int m + 1 / 2) * (of_int m + 1 / 2)"
  have h: "h = of_int (m * m + m) + 1 / 4" unfolding h_def by (simp add: algebra_simps)
  have lt: "(of_int N < h) = (N \<le> m * m + m)"
  proof
    assume "of_int N < h"
    then have "(of_int N :: rat) < of_int (m * m + m + 1)" unfolding h by simp
    then have "N < m * m + m + 1" by (simp only: of_int_less_iff)
    then show "N \<le> m * m + m" by simp
  next
    assume "N \<le> m * m + m"
    then have "(of_int N :: rat) \<le> of_int (m * m + m)" by (simp only: of_int_le_iff)
    then show "of_int N < h" unfolding h by simp
  qed
  have gt: "(h < of_int N) = (m * m + m < N)"
  proof
    assume "h < of_int N"
    then have "(of_int (m * m + m) :: rat) < of_int N" unfolding h by simp
    then show "m * m + m < N" by (simp only: of_int_less_iff)
  next
    assume "m * m + m < N"
    then have "m * m + m + 1 \<le> N" by simp
    then have "(of_int (m * m + m + 1) :: rat) \<le> of_int N" by (simp only: of_int_le_iff)
    then show "h < of_int N" unfolding h by simp
  qed
  define m' where "m' = (if N \<le> m * m + m then m else m + 1)"
  have fl: "floor_log2 (of_int n) div 2 - 52 = e"
    using floor_log2_of_int [OF assms(1)] unfolding e_def k_def by simp
  have nz: "(of_int n :: rat) \<noteq> 0" using assms(1) by simp
  have "float_sqrt (of_int n) =
      of_int (if of_int N < h then m else if h < of_int N then m + 1
              else if even m then m else m + 1) * pow2 e"
    unfolding float_sqrt_def Let_def fl X floor_of_int m_def [symmetric] h_def [symmetric]
    using nz by (simp only: if_False)
  also have "\<dots> = of_int m' * pow2 e"
    unfolding lt gt m'_def by (cases "N \<le> m * m + m") simp_all
  finally have fs: "float_sqrt (of_int n) = of_int m' / of_int T" unfolding p1 by simp
  have m'0: "0 \<le> m'" using m(1) unfolding m'_def by simp
  have "float_trunc (float_sqrt (of_int n)) = \<lfloor>(of_int m' :: rat) / of_int T\<rfloor>"
    unfolding fs float_trunc_def using m'0 T0 by simp
  also have "\<dots> = m' div T" by (rule floor_divide_of_int_eq)
  also have "\<dots> = s" using main unfolding m'_def by (cases "N \<le> m * m + m") simp_all
  finally show ?thesis unfolding s_def .
qed

subsection \<open>Rounding stays within bounds\<close>

lemma pow2_powi: "pow2 k = 2 powi k"
  unfolding pow2_def power_int_def by (simp add: inverse_eq_divide power_one_over)

lemma pow2_add: "pow2 (a + b) = pow2 a * pow2 b"
  by (simp add: pow2_powi power_int_add)

lemma pow2_mono: "a \<le> b \<Longrightarrow> pow2 a \<le> pow2 b"
  by (simp add: pow2_powi power_int_increasing)

lemma pow2_strict_mono: "a < b \<Longrightarrow> pow2 a < pow2 b"
  by (simp add: pow2_powi power_int_strict_increasing)

lemma floor_log2_lower:
  assumes "0 < x"
  shows "pow2 (floor_log2 x) \<le> x"
proof (cases "1 \<le> x")
  case True
  define n where "n = \<lfloor>x\<rfloor>"
  have n: "1 \<le> n" unfolding n_def using True by simp
  then have pos: "0 < n" by simp
  have k: "0 \<le> bit_length n - 1" using bit_length_pos [OF pos] by simp
  have "floor_log2 x = bit_length n - 1" unfolding floor_log2_def n_def using True by simp
  then have "pow2 (floor_log2 x) = of_int (2 ^ nat (bit_length n - 1))"
    using k by (simp add: pow2_nonneg)
  also have "\<dots> \<le> of_int n" using bit_length_bounds [OF pos] by (simp only: of_int_le_iff)
  also have "\<dots> \<le> x" unfolding n_def by simp
  finally show ?thesis .
next
  case False
  define c where "c = \<lceil>1 / x\<rceil>"
  define j where "j = bit_length (c - 1)"
  have y: "1 < 1 / x" using False assms by simp
  then have c2: "2 \<le> c" unfolding c_def by (simp add: le_ceiling_iff)
  then have pos: "0 < c - 1" by simp
  have j1: "1 \<le> j" unfolding j_def using pos by (rule bit_length_pos)
  have "c - 1 < 2 ^ nat j" using bit_length_bounds [OF pos] unfolding j_def by simp
  then have "c \<le> 2 ^ nat j" by simp
  then have "(of_int c :: rat) \<le> of_int (2 ^ nat j)" by (simp only: of_int_le_iff)
  then have "(of_int c :: rat) \<le> 2 ^ nat j" by simp
  moreover have "1 / x \<le> of_int c" unfolding c_def by simp
  ultimately have "1 / x \<le> 2 ^ nat j" by linarith
  then have "1 \<le> 2 ^ nat j * x" using assms by (simp add: field_simps)
  then have "1 / 2 ^ nat j \<le> x" by (simp add: field_simps)
  moreover have "floor_log2 x = - j" unfolding floor_log2_def c_def j_def using False by simp
  moreover have "pow2 (- j) = 1 / 2 ^ nat j" using j1 by (simp add: pow2_def)
  ultimately show ?thesis by simp
qed

lemma round_even_le: "y \<le> of_int M \<Longrightarrow> round_even y \<le> M"
proof -
  assume a: "y \<le> of_int M"
  then have f: "\<lfloor>y\<rfloor> \<le> M" by (simp add: floor_le_iff)
  show ?thesis
  proof (cases "\<lfloor>y\<rfloor> = M")
    case True
    then have "y - of_int \<lfloor>y\<rfloor> \<le> 0" using a by simp
    then show ?thesis unfolding round_even_def Let_def using True by simp
  next
    case False
    then have "\<lfloor>y\<rfloor> + 1 \<le> M" using f by simp
    then show ?thesis unfolding round_even_def Let_def by simp
  qed
qed

lemma round_even_nonneg: "0 \<le> y \<Longrightarrow> 0 \<le> round_even y"
  unfolding round_even_def Let_def by simp

lemma round_double_bound:
  assumes "0 < x" "x \<le> pow2 K" "- 1074 \<le> K"
  shows "0 \<le> round_double x \<and> round_double x \<le> pow2 K"
proof -
  define e where "e = max (floor_log2 x - 52) (- 1074)"
  have "floor_log2 x \<le> K"
  proof (rule ccontr)
    assume "\<not> floor_log2 x \<le> K"
    then have "pow2 K < pow2 (floor_log2 x)" by (intro pow2_strict_mono) simp
    then show False using floor_log2_lower [OF assms(1)] assms(2) by simp
  qed
  then have eK: "0 \<le> K - e" unfolding e_def using assms(3) by simp
  define M :: int where "M = 2 ^ nat (K - e)"
  have M: "pow2 (K - e) = of_int M" unfolding M_def using eK by (rule pow2_nonneg)
  have pe: "0 < pow2 e" by (rule pow2_pos)
  have "pow2 K = pow2 ((K - e) + e)" by simp
  also have "\<dots> = of_int M * pow2 e" unfolding pow2_add M ..
  finally have K: "pow2 K = of_int M * pow2 e" .
  have "x / pow2 e \<le> of_int M" using assms(2) pe unfolding K by (simp add: field_simps)
  then have m: "round_even (x / pow2 e) \<le> M" by (rule round_even_le)
  have m0: "0 \<le> round_even (x / pow2 e)" using assms(1) pe by (intro round_even_nonneg) simp
  have ab: "\<bar>x\<bar> = x" "x \<noteq> 0" "\<not> x < 0" using assms(1) by simp_all
  have r: "round_double x = of_int (round_even (x / pow2 e)) * pow2 e"
    unfolding round_double_def Let_def ab(1) e_def [symmetric] using ab(2,3) by (simp only: if_False)
  have "of_int (round_even (x / pow2 e)) * pow2 e \<le> of_int M * pow2 e"
    using m pe by (intro mult_right_mono) simp_all
  moreover have "0 \<le> of_int (round_even (x / pow2 e)) * pow2 e" using m0 pe by simp
  ultimately show ?thesis unfolding r K by simp
qed

lemma round_double_minus: "round_double (- x) = - round_double x"
  unfolding round_double_def Let_def by simp

lemma round_double_abs_bound:
  assumes "\<bar>x\<bar> \<le> pow2 K" "- 1074 \<le> K"
  shows "\<bar>round_double x\<bar> \<le> pow2 K"
proof -
  consider "x = 0" | "0 < x" | "x < 0" by linarith
  then show ?thesis
  proof cases
    case 1
    then show ?thesis using pow2_pos [of K] by (simp add: round_double_def)
  next
    case 2
    then show ?thesis using round_double_bound [of x K] assms by simp
  next
    case 3
    then have "0 < - x" "- x \<le> pow2 K" using assms(1) by simp_all
    then have "0 \<le> round_double (- x) \<and> round_double (- x) \<le> pow2 K"
      using assms(2) by (rule round_double_bound)
    then show ?thesis unfolding round_double_minus by simp
  qed
qed

lemma float_of_int_ok:
  assumes "\<bar>n\<bar> \<le> 2 ^ 1023"
  shows "float_of_int n = Inr (round_double (of_int n))"
proof -
  have "(of_int \<bar>n\<bar> :: rat) \<le> of_int (2 ^ 1023)" using assms by (simp only: of_int_le_iff)
  then have "\<bar>of_int n :: rat\<bar> \<le> 2 ^ 1023" by simp
  also have "(2::rat) ^ 1023 = pow2 1023" by (simp add: pow2_def)
  finally have "\<bar>round_double (of_int n)\<bar> \<le> pow2 1023"
    by (rule round_double_abs_bound) simp
  also have "pow2 1023 < 2 ^ 1024" by (simp add: pow2_def)
  finally have "\<not> 2 ^ 1024 \<le> \<bar>round_double (of_int n)\<bar>" by simp
  then show ?thesis unfolding float_of_int_def Let_def by simp
qed

section \<open>Properties of the predicates and the filters\<close>

lemma is_prime_loop_iff:
  "is_prime_loop num i stop = (\<forall>j. i \<le> j \<and> j < stop \<longrightarrow> num mod j \<noteq> 0)"
proof (induction num i stop rule: is_prime_loop.induct)
  case (1 num i stop)
  show ?case
  proof (cases "i < stop")
    case False
    then show ?thesis by (subst is_prime_loop.simps) simp
  next
    case True
    show ?thesis
    proof (cases "num mod i = 0")
      case z: True
      then have "\<not> is_prime_loop num i stop" using True by (subst is_prime_loop.simps) simp
      moreover have "\<not> (\<forall>j. i \<le> j \<and> j < stop \<longrightarrow> num mod j \<noteq> 0)" using True z by auto
      ultimately show ?thesis by simp
    next
      case nz: False
      have "is_prime_loop num i stop = is_prime_loop num (i + 1) stop"
        using True nz by (subst is_prime_loop.simps) simp
      also have "\<dots> = (\<forall>j. i + 1 \<le> j \<and> j < stop \<longrightarrow> num mod j \<noteq> 0)"
        using "1.IH" True nz by simp
      also have "\<dots> = (\<forall>j. i \<le> j \<and> j < stop \<longrightarrow> num mod j \<noteq> 0)"
      proof (intro iffI allI impI)
        fix j assume a: "\<forall>j. i + 1 \<le> j \<and> j < stop \<longrightarrow> num mod j \<noteq> 0" and b: "i \<le> j \<and> j < stop"
        show "num mod j \<noteq> 0"
        proof (cases "j = i")
          case True
          then show ?thesis using nz by simp
        next
          case False
          then have "i + 1 \<le> j" using b by simp
          then show ?thesis using a b by simp
        qed
      next
        fix j assume a: "\<forall>j. i \<le> j \<and> j < stop \<longrightarrow> num mod j \<noteq> 0" and b: "i + 1 \<le> j \<and> j < stop"
        then show "num mod j \<noteq> 0" by simp
      qed
      finally show ?thesis .
    qed
  qed
qed

lemma isqrt_floor_sqrt:
  assumes "0 \<le> n"
  shows "isqrt n = \<lfloor>sqrt (real_of_int n)\<rfloor>"
proof -
  define s where "s = isqrt n"
  have s: "0 \<le> s" "s * s \<le> n" "n < (s + 1) * (s + 1)"
    using isqrt_nonneg isqrt_bounds [OF assms] unfolding s_def by simp_all
  have "real_of_int (s * s) \<le> real_of_int n" using s(2) by (simp only: of_int_le_iff)
  then have "sqrt (real_of_int (s * s)) \<le> sqrt (real_of_int n)" by (simp only: real_sqrt_le_iff)
  then have lo: "real_of_int s \<le> sqrt (real_of_int n)" using s(1) by simp
  have "real_of_int n < real_of_int ((s + 1) * (s + 1))" using s(3) by (simp only: of_int_less_iff)
  then have "sqrt (real_of_int n) < sqrt (real_of_int ((s + 1) * (s + 1)))"
    by (simp only: real_sqrt_less_iff)
  also have "\<dots> = real_of_int (s + 1)" using s(1) by simp
  finally have hi: "sqrt (real_of_int n) < real_of_int s + 1" by simp
  have "\<lfloor>sqrt (real_of_int n)\<rfloor> = s" using lo hi by (simp add: floor_eq_iff)
  then show ?thesis unfolding s_def by simp
qed

lemma is_prime_exact:
  assumes "2 \<le> n" "n < 2 ^ 52"
  shows "is_prime n = Inr (is_prime_loop n 2 (isqrt n + 1))"
proof -
  have a: "0 \<le> n" "n < 2 ^ 53" "1 \<le> n" using assms by simp_all
  show ?thesis
    unfolding is_prime_def float_of_int_exact [OF a(1,2)]
    using assms(1) float_sqrt_trunc [OF a(3) assms(2)] by simp
qed

lemma is_prime_small: "n < 2 \<Longrightarrow> is_prime n = Inr False"
  by (simp add: is_prime_def)

lemma bit_length_double: "0 < n \<Longrightarrow> bit_length (2 * n) = 1 + bit_length n"
  by (subst bit_length.simps) simp

lemma bit_length_pow2: "bit_length (2 ^ k) = int k + 1"
proof (induction k)
  case 0
  show ?case by (simp add: bit_length.simps)
next
  case (Suc k)
  have "bit_length (2 * 2 ^ k) = 1 + bit_length (2 ^ k)" by (rule bit_length_double) simp
  then show ?case using Suc by simp
qed

lemma round_double_pow2:
  assumes "52 \<le> k"
  shows "round_double (2 ^ k) = 2 ^ k"
proof -
  define x :: rat where "x = 2 ^ k"
  have x1: "1 \<le> x" unfolding x_def by simp
  have xi: "x = of_int (2 ^ k)" unfolding x_def by simp
  have "floor_log2 (of_int (2 ^ k)) = bit_length (2 ^ k) - 1"
    by (rule floor_log2_of_int) simp
  then have fl: "floor_log2 x = int k" unfolding xi by (simp add: bit_length_pow2)
  have mx: "max (int k - 52) (- 1074) = int (k - 52)" using assms by simp
  have p: "pow2 (int (k - 52)) = 2 ^ (k - 52)" by (simp add: pow2_def)
  have "k = 52 + (k - 52)" using assms by simp
  then have "x = 2 ^ (52 + (k - 52))" unfolding x_def by simp
  also have "\<dots> = 2 ^ 52 * 2 ^ (k - 52)" by (rule power_add)
  finally have split: "x = 2 ^ 52 * 2 ^ (k - 52)" .
  have q: "x / 2 ^ (k - 52) = of_int (2 ^ 52)" unfolding split by simp
  have nz: "x \<noteq> 0" "\<not> x < 0" "\<bar>x\<bar> = x" using x1 by simp_all
  have "round_double x = of_int (round_even (x / pow2 (int (k - 52)))) * pow2 (int (k - 52))"
    unfolding round_double_def Let_def nz(3) fl mx using nz(1,2) by (simp only: if_False)
  also have "\<dots> = of_int (2 ^ 52) * 2 ^ (k - 52)" unfolding p q round_even_of_int ..
  also have "\<dots> = x" unfolding split by simp
  finally show ?thesis unfolding x_def .
qed

lemma float_of_int_overflow:
  assumes "1024 \<le> k"
  shows "float_of_int (2 ^ k) = Inl OverflowError"
proof -
  have k: "52 \<le> k" using assms by simp
  have r: "round_double (of_int (2 ^ k)) = 2 ^ k" using round_double_pow2 [OF k] by simp
  have "(2::rat) ^ 1024 \<le> 2 ^ k" using assms by (intro power_increasing) simp_all
  then have "(2::rat) ^ 1024 \<le> \<bar>2 ^ k\<bar>" by simp
  then show ?thesis unfolding float_of_int_def r Let_def by (simp only: if_True)
qed

lemma is_prime_overflow:
  assumes "1024 \<le> k"
  shows "is_prime (2 ^ k) = Inl OverflowError"
proof -
  have "(2::int) ^ 1 \<le> 2 ^ k" using assms by (intro power_increasing) simp_all
  then have "\<not> (2::int) ^ k < 2" by simp
  then show ?thesis unfolding is_prime_def float_of_int_overflow [OF assms] by simp
qed

lemma is_prime_computed_bound:
  assumes "n \<le> 2 ^ 1023"
  shows "is_prime n =
     Inr (2 \<le> n \<and>
          (\<forall>i\<in>{2..float_trunc (float_sqrt (round_double (of_int n)))}. n mod i \<noteq> 0))"
proof (cases "n < 2")
  case True
  then show ?thesis by (simp add: is_prime_small)
next
  case False
  then have "\<bar>n\<bar> \<le> 2 ^ 1023" using assms by simp
  then have f: "float_of_int n = Inr (round_double (of_int n))" by (rule float_of_int_ok)
  have range: "(2 \<le> j \<and> j < k + 1) = (j \<in> {2..k})" for j k :: int by auto
  have "is_prime_loop n 2 (k + 1) = (\<forall>i\<in>{2..k}. n mod i \<noteq> 0)" for k
    by (simp only: is_prime_loop_iff Ball_def range)
  then show ?thesis unfolding is_prime_def f using False by simp
qed

lemma is_prime_trial_division:
  assumes "n < 2 ^ 52"
  shows "is_prime n = Inr (2 \<le> n \<and> (\<forall>i\<in>{2..\<lfloor>sqrt (real_of_int n)\<rfloor>}. n mod i \<noteq> 0))"
proof (cases "n < 2")
  case True
  then show ?thesis by (simp add: is_prime_small)
next
  case False
  then have n: "2 \<le> n" "0 \<le> n" by simp_all
  have "is_prime n = Inr (is_prime_loop n 2 (isqrt n + 1))"
    using n(1) assms by (rule is_prime_exact)
  also have "is_prime_loop n 2 (isqrt n + 1) = (\<forall>i\<in>{2..isqrt n}. n mod i \<noteq> 0)"
  proof -
    have range: "(2 \<le> j \<and> j < isqrt n + 1) = (j \<in> {2..isqrt n})" for j by auto
    show ?thesis by (simp only: is_prime_loop_iff Ball_def range)
  qed
  finally show ?thesis using n(1) isqrt_floor_sqrt [OF n(2)] by simp
qed

lemma is_prime_values:
  "list_all (\<lambda>p. is_prime p = Inr True) [2, 3, 5, 7, 11, 97, 1973, 1979]"
  "list_all (\<lambda>c. is_prime c = Inr False) [4, 6, 8, 9, 10, 100, 1980]"
  by (simp_all add: is_prime_exact isqrt.simps is_prime_loop.simps)

text \<open>
  Claim C1, amended. For an integer \<open>n\<close> below \<open>2\<^sup>5\<^sup>2\<close>, \<open>is_prime n\<close> is false for
  \<open>n < 2\<close>, and otherwise true exactly when no integer from 2 to the integer part of
  the square root of \<open>n\<close> divides \<open>n\<close>. Up to \<open>2\<^sup>1\<^sup>0\<^sup>2\<^sup>3\<close> the same holds with the bound the
  program computes, the integer part of the square root in double precision. The
  function is true for 2, 3, 5, 7, 11, 97, 1973 and 1979, false for 4, 6, 8, 9, 10, 100
  and 1980.
\<close>

theorem is_prime_spec:
  "(n < 2 ^ 52 \<longrightarrow>
      is_prime n = Inr (2 \<le> n \<and> (\<forall>i\<in>{2..\<lfloor>sqrt (real_of_int n)\<rfloor>}. n mod i \<noteq> 0))) \<and>
   (n \<le> 2 ^ 1023 \<longrightarrow>
      is_prime n =
        Inr (2 \<le> n \<and>
             (\<forall>i\<in>{2..float_trunc (float_sqrt (round_double (of_int n)))}. n mod i \<noteq> 0))) \<and>
   list_all (\<lambda>p. is_prime p = Inr True) [2, 3, 5, 7, 11, 97, 1973, 1979] \<and>
   list_all (\<lambda>c. is_prime c = Inr False) [4, 6, 8, 9, 10, 100, 1980]"
  using is_prime_trial_division [of n] is_prime_computed_bound [of n] is_prime_values by blast

theorem is_prime_spec_witness:
  "(1979::int) < 2 ^ 52 \<and> (1979::int) \<le> 2 ^ 1023 \<and>
   is_prime 1979 =
     Inr (2 \<le> (1979::int) \<and> (\<forall>i\<in>{2..\<lfloor>sqrt (real_of_int 1979)\<rfloor>}. (1979::int) mod i \<noteq> 0)) \<and>
   is_prime 1979 =
     Inr (2 \<le> (1979::int) \<and>
          (\<forall>i\<in>{2..float_trunc (float_sqrt (round_double (of_int 1979)))}.
             (1979::int) mod i \<noteq> 0)) \<and>
   is_prime 1979 = Inr True \<and> is_prime 1 = Inr False"
proof -
  have b: "(1979::int) < 2 ^ 52" "(1979::int) \<le> 2 ^ 1023" by simp_all
  have v: "is_prime 1979 = Inr True" using is_prime_values(1) by simp
  have s: "is_prime 1 = Inr False" by (simp add: is_prime_small)
  have e: "is_prime 1979 =
      Inr (2 \<le> (1979::int) \<and> (\<forall>i\<in>{2..\<lfloor>sqrt (real_of_int 1979)\<rfloor>}. (1979::int) mod i \<noteq> 0))"
    using is_prime_spec [of 1979] b(1) by blast
  have c: "is_prime 1979 =
      Inr (2 \<le> (1979::int) \<and>
           (\<forall>i\<in>{2..float_trunc (float_sqrt (round_double (of_int 1979)))}.
              (1979::int) mod i \<noteq> 0))"
    using is_prime_spec [of 1979] b(2) by blast
  show ?thesis using b v s e c by (intro conjI)
qed

text \<open>
  Claim C1 as stated, for every integer, fails where the conversion to a double
  overflows: \<open>2\<^sup>1\<^sup>0\<^sup>2\<^sup>4\<close> is even, and \<open>is_prime\<close> raises OverflowError instead of
  returning false.
\<close>

theorem is_prime_overflow_counterexample:
  "is_prime (2 ^ 1024) = Inl OverflowError \<and> is_prime (2 ^ 1024) \<noteq> Inr False"
proof -
  have "is_prime (2 ^ 1024) = Inl OverflowError" by (rule is_prime_overflow) simp
  then show ?thesis by simp
qed


lemma list_comp_total:
  "list_comp (\<lambda>row. Inr (P row)) data = Inr (filter P data)"
  by (induction data) simp_all


lemma lower_false: "lower ''false'' \<noteq> ''true''"
  by code_simp

lemma success_in_keys: "''success'' \<in> set (keys row)"
  by (simp add: keys_def typed_keys_def)

lemma impact_in_keys: "''scientific_impact'' \<in> set (keys row)"
  by (simp add: keys_def typed_keys_def)

lemma cond_success_eq:
  "cond_success ''success'' b = (\<lambda>row. Inr (success row = b))"
  by (rule ext) (simp add: cond_success_def getitem_def)

lemma filter_by_column_success:
  "filter_by_column data ''success'' v =
     (if data = [] then Inl IndexError
      else Inr ([], filter (\<lambda>row. success row = (lower v = ''true'')) data))"
  by (cases data) (simp_all add: filter_by_column_def success_in_keys cond_success_eq list_comp_total)

text \<open>
  Claim C2. For every integer \<open>n\<close> and nonzero \<open>d\<close>, \<open>is_divisible_by n d\<close> is true
  exactly when \<open>n mod d = 0\<close>, so \<open>is_divisible_by 0 5\<close> is true; with \<open>d = 0\<close> it
  raises ZeroDivisionError for every \<open>n\<close>, and the filter on divisible years passes
  that error on to its caller (it reaches the division as soon as there is a row).
\<close>

theorem is_divisible_by_spec:
  "(d \<noteq> 0 \<longrightarrow> is_divisible_by n d = Inr (n mod d = 0)) \<and>
   is_divisible_by 0 5 = Inr True \<and>
   is_divisible_by n 0 = Inl ZeroDivisionError \<and>
   filter_by_divisible_years data 0 = (if data = [] then Inr [] else Inl ZeroDivisionError)"
  by (cases data) (simp_all add: is_divisible_by_def filter_by_divisible_years_def)

theorem is_divisible_by_spec_witness:
  "(4::int) \<noteq> 0 \<and> is_divisible_by 1980 4 = Inr (1980 mod 4 = (0::int)) \<and>
   is_divisible_by 1980 4 = Inr True \<and>
   is_divisible_by 1980 0 = Inl ZeroDivisionError \<and>
   filter_by_divisible_years sample_data 0 = Inl ZeroDivisionError"
proof -
  have ne: "sample_data \<noteq> []" by (simp add: sample_data_def)
  show ?thesis using is_divisible_by_spec [of 4 1980 sample_data] ne by simp
qed

text \<open>
  Claim C4. On an empty list \<open>filter_by_column\<close> raises IndexError, whatever the column
  and the value: it reads the first row to look for the column.
\<close>

theorem filter_by_column_empty:
  "filter_by_column [] column v = Inl IndexError"
  by (simp add: filter_by_column_def)

text \<open>
  The two paths of \<open>filter_by_column\<close> that report an error and go on, on a list that
  is not empty: when the column is not a key of the first row, or the column is
  \<open>scientific_impact\<close> and the value is no integer, the function prints one line of
  error and returns the list it was given.
\<close>

lemma filter_by_column_no_op:
  "(data \<noteq> [] \<and> column \<notin> set (keys (hd data)) \<longrightarrow>
      filter_by_column data column v = Inr ([column_not_found column], data)) \<and>
   (data \<noteq> [] \<and> int_of_str v = None \<longrightarrow>
      filter_by_column data ''scientific_impact'' v = Inr ([impact_not_a_number], data))"
  by (cases data) (simp_all add: filter_by_column_def impact_in_keys)

lemma unknown_not_in_keys: "''launch_site'' \<notin> set (keys (hd sample_data))"
  by (simp add: sample_data_def rec_def keys_def typed_keys_def)

lemma filter_by_column_no_op_sample:
  "filter_by_column sample_data ''launch_site'' ''high'' =
     Inr ([column_not_found ''launch_site''], sample_data) \<and>
   filter_by_column sample_data ''scientific_impact'' ''high'' =
     Inr ([impact_not_a_number], sample_data)"
proof -
  have ne: "sample_data \<noteq> []" by (simp add: sample_data_def)
  have bad: "int_of_str ''high'' = None" by code_simp
  show ?thesis
    using filter_by_column_no_op [of sample_data "''launch_site''" "''high''"]
      ne bad unknown_not_in_keys by simp
qed

text \<open>
  Claim C3. For every list, a column that the rows do not have, or a threshold for
  \<open>scientific_impact\<close> that is no integer, is reported, and the list is returned as it
  is. The code departs from the claim on the empty list: it reads the first row before
  it looks at the column or the value, so the call raises IndexError where the claim
  has the error reported and the empty list returned.
\<close>

theorem filter_by_column_no_op_empty:
  "int_of_str ''high'' = None \<and>
   filter_by_column [] ''scientific_impact'' ''high'' = Inl IndexError \<and>
   filter_by_column [] ''scientific_impact'' ''high'' \<noteq> Inr ([impact_not_a_number], []) \<and>
   filter_by_column [] ''launch_site'' ''high'' = Inl IndexError \<and>
   filter_by_column [] ''launch_site'' ''high'' \<noteq> Inr ([column_not_found ''launch_site''], [])"
proof -
  have bad: "int_of_str ''high'' = None" by code_simp
  show ?thesis using bad by (simp add: filter_by_column_def)
qed

text \<open>
  Claim C10. For the column \<open>success\<close>, every value whose lower-casing is not \<open>true\<close>
  is treated like \<open>false\<close>: the call gives what the call with \<open>false\<close> gives, the
  rows that did not succeed, and nothing is printed: the value is not validated.
\<close>

theorem filter_by_column_success_value:
  "lower v \<noteq> ''true'' \<Longrightarrow>
     filter_by_column data ''success'' v = filter_by_column data ''success'' ''false'' \<and>
     (data \<noteq> [] \<longrightarrow>
        filter_by_column data ''success'' v = Inr ([], filter (\<lambda>row. \<not> success row) data))"
  by (simp add: filter_by_column_success lower_false)

theorem filter_by_column_success_value_witness:
  "lower ''yes'' \<noteq> ''true'' \<and> lower ''1'' \<noteq> ''true'' \<and> sample_data \<noteq> [] \<and>
   filter_by_column sample_data ''success'' ''yes'' =
     filter_by_column sample_data ''success'' ''false'' \<and>
   filter_by_column sample_data ''success'' ''yes'' = Inr ([], [sample_data ! 5]) \<and>
   filter_by_column sample_data ''success'' ''1'' = Inr ([], [sample_data ! 5])"
proof -
  have yes: "lower ''yes'' \<noteq> ''true''" by code_simp
  have one: "lower ''1'' \<noteq> ''true''" by code_simp
  have ne: "sample_data \<noteq> []" by (simp add: sample_data_def)
  have f: "filter (\<lambda>row. \<not> success row) sample_data = [sample_data ! 5]"
    by (simp add: sample_data_def rec_def)
  have a: "filter_by_column sample_data ''success'' ''yes'' =
      filter_by_column sample_data ''success'' ''false''"
    using filter_by_column_success_value [OF yes, of sample_data] by (rule conjunct1)
  have b: "filter_by_column sample_data ''success'' ''yes'' = Inr ([], [sample_data ! 5])"
    using filter_by_column_success_value [OF yes, THEN conjunct2, THEN mp, OF ne]
    by (simp only: f)
  have c: "filter_by_column sample_data ''success'' ''1'' = Inr ([], [sample_data ! 5])"
    using filter_by_column_success_value [OF one, THEN conjunct2, THEN mp, OF ne]
    by (simp only: f)
  show ?thesis using yes one ne a b c by simp
qed

section \<open>Subsequences and idempotence\<close>

lemma list_comp_Inr_iff:
  "(list_comp cond data = Inr kept) =
     ((\<forall>row\<in>set data. \<exists>b. cond row = Inr b) \<and>
      kept = filter (\<lambda>row. cond row = Inr True) data)"
proof (induction data arbitrary: kept)
  case Nil
  show ?case by auto
next
  case (Cons row data)
  show ?case
  proof (cases "cond row")
    case (Inl e)
    then show ?thesis by auto
  next
    case b: (Inr b)
    show ?thesis
    proof (cases "list_comp cond data")
      case (Inl e)
      then have "\<not> (\<forall>row\<in>set data. \<exists>b. cond row = Inr b)"
        using Cons.IH [of "filter (\<lambda>row. cond row = Inr True) data"] by simp
      then show ?thesis using b Inl by simp
    next
      case (Inr ys)
      then have "(\<forall>row\<in>set data. \<exists>b. cond row = Inr b)"
        and "ys = filter (\<lambda>row. cond row = Inr True) data"
        using Cons.IH [of ys] by simp_all
      then show ?thesis using b Inr by auto
    qed
  qed
qed

lemma list_comp_subseq: "list_comp cond data = Inr kept \<Longrightarrow> subseq kept data"
  by (simp add: list_comp_Inr_iff)

lemma list_comp_idem:
  assumes "list_comp cond data = Inr kept"
  shows "list_comp cond kept = Inr kept"
proof -
  from assms have all: "\<forall>row\<in>set data. \<exists>b. cond row = Inr b"
    and kept: "kept = filter (\<lambda>row. cond row = Inr True) data"
    by (simp_all add: list_comp_Inr_iff)
  have "\<forall>row\<in>set kept. \<exists>b. cond row = Inr b" using all kept by auto
  moreover have "kept = filter (\<lambda>row. cond row = Inr True) kept" unfolding kept by simp
  ultimately show ?thesis by (simp only: list_comp_Inr_iff) 
qed

lemma list_comp_hd:
  assumes "list_comp cond data = Inr kept" "kept \<noteq> []"
  shows "cond (hd kept) = Inr True"
proof -
  have "hd kept \<in> set kept" using assms(2) by simp
  then show ?thesis using assms(1) by (simp add: list_comp_Inr_iff)
qed

lemma cond_impact_eq:
  "cond_impact ''scientific_impact'' t = (\<lambda>row. Inr (t \<le> scientific_impact row))"
  by (rule ext) (simp add: cond_impact_def getitem_def)

lemma filter_by_column_impact:
  "filter_by_column data ''scientific_impact'' v =
     (if data = [] then Inl IndexError
      else (case int_of_str v of
              None \<Rightarrow> Inr ([impact_not_a_number], data)
            | Some t \<Rightarrow> Inr ([], filter (\<lambda>row. t \<le> scientific_impact row) data)))"
  by (cases data)
     (simp_all add: filter_by_column_def impact_in_keys cond_impact_eq list_comp_total
        split: option.splits)

lemma filter_by_column_text:
  assumes "column \<noteq> ''success''" "column \<noteq> ''scientific_impact''"
  shows "filter_by_column data column v =
     (if data = [] then Inl IndexError
      else if column \<notin> set (keys (hd data)) then Inr ([column_not_found column], data)
      else (case list_comp (cond_text column v) data of
              Inl e \<Rightarrow> Inl e
            | Inr kept \<Rightarrow> Inr ([], kept)))"
  using assms by (cases data) (simp_all add: filter_by_column_def)

lemma getitem_Inr_keys: "getitem row column = Inr x \<Longrightarrow> column \<in> set (keys row)"
  by (auto simp: getitem_def keys_def typed_keys_def map_of_eq_None_iff
      split: if_splits option.splits)
     (metis domI dom_map_of_conv_image_fst)+

lemma cond_text_Inr_keys: "cond_text column v row = Inr b \<Longrightarrow> column \<in> set (keys row)"
  by (auto simp: cond_text_def split: sum.splits dest: getitem_Inr_keys)

lemma cond_text_year: "cond_text ''year'' v row = Inl AttributeError"
  by (simp add: cond_text_def getitem_def)

lemma cond_text_column:
  assumes "column \<notin> set typed_keys" "map_of (columns row) column = Some (Some s)"
  shows "cond_text column v row = Inr (str_in (lower v) (lower s))"
  using assms by (auto simp: cond_text_def getitem_def typed_keys_def)

lemma filter_by_column_subseq:
  assumes "filter_by_column data column v = Inr (out, kept)"
  shows "subseq kept data"
proof (cases "column = ''success''")
  case True
  then show ?thesis using assms
    by (auto simp: filter_by_column_success split: if_splits)
next
  case ns: False
  show ?thesis
  proof (cases "column = ''scientific_impact''")
    case True
    then show ?thesis using assms
      by (auto simp: filter_by_column_impact split: if_splits option.splits)
  next
    case False
    then show ?thesis using assms ns
      by (auto simp: filter_by_column_text split: if_splits sum.splits dest: list_comp_subseq)
  qed
qed

lemma filter_by_column_idem:
  assumes "filter_by_column data column v = Inr (out, kept)" "kept \<noteq> []"
  shows "filter_by_column kept column v = Inr (out, kept)"
proof (cases "column = ''success''")
  case True
  then show ?thesis using assms
    by (auto simp: filter_by_column_success split: if_splits)
next
  case ns: False
  show ?thesis
  proof (cases "column = ''scientific_impact''")
    case True
    then show ?thesis using assms
      by (auto simp: filter_by_column_impact split: if_splits option.splits)
  next
    case ni: False
    have ne: "data \<noteq> []" using assms(1) by (auto simp: filter_by_column_def)
    show ?thesis
    proof (cases "column \<in> set (keys (hd data))")
      case False
      then show ?thesis using assms ns ni ne by (simp add: filter_by_column_text)
    next
      case True
      then have lc: "list_comp (cond_text column v) data = Inr kept" and out: "out = []"
        using assms ns ni ne by (auto simp: filter_by_column_text split: sum.splits)
      have "cond_text column v (hd kept) = Inr True" using lc assms(2) by (rule list_comp_hd)
      then have k: "column \<in> set (keys (hd kept))" by (rule cond_text_Inr_keys)
      show ?thesis
        using ns ni k assms(2) list_comp_idem [OF lc] out by (simp add: filter_by_column_text)
    qed
  qed
qed

lemma is_prime_returns: "n \<le> 2 ^ 1023 \<Longrightarrow> \<exists>b. is_prime n = Inr b"
  by (simp add: is_prime_computed_bound)

lemma filter_by_prime_years_total:
  assumes "\<forall>row\<in>set data. year row \<le> 2 ^ 1023"
  shows "filter_by_prime_years data = Inr (filter (\<lambda>row. is_prime (year row) = Inr True) data)"
  unfolding filter_by_prime_years_def list_comp_Inr_iff
  using assms is_prime_returns by simp

lemma filter_by_divisible_years_total:
  assumes "divisor \<noteq> 0"
  shows "filter_by_divisible_years data divisor =
     Inr (filter (\<lambda>row. year row mod divisor = 0) data)"
  unfolding filter_by_divisible_years_def list_comp_Inr_iff
  using assms by (simp add: is_divisible_by_def)

lemma filter_by_column_text_total:
  assumes "data \<noteq> []" "column \<notin> set typed_keys"
    and "\<forall>row\<in>set data. \<exists>s. map_of (columns row) column = Some (Some s)"
  shows "\<exists>kept. filter_by_column data column v = Inr ([], kept)"
proof -
  have ns: "column \<noteq> ''success''" "column \<noteq> ''scientific_impact''"
    using assms(2) by (auto simp: typed_keys_def)
  have "hd data \<in> set data" using assms(1) by simp
  then obtain s where "map_of (columns (hd data)) column = Some (Some s)"
    using assms(3) by blast
  then have "getitem (hd data) column = Inr (VStr s)"
    using assms(2) by (auto simp: getitem_def typed_keys_def)
  then have k: "column \<in> set (keys (hd data))" by (rule getitem_Inr_keys)
  have "\<forall>row\<in>set data. \<exists>b. cond_text column v row = Inr b"
    using assms(2,3) cond_text_column by blast
  then have "list_comp (cond_text column v) data =
      Inr (filter (\<lambda>row. cond_text column v row = Inr True) data)"
    by (simp add: list_comp_Inr_iff)
  then show ?thesis using assms(1) k ns by (simp add: filter_by_column_text)
qed

lemma sample_prime_years: "filter_by_prime_years sample_data = Inr [sample_data ! 2]"
  by (simp add: filter_by_prime_years_def sample_data_def rec_def is_prime_exact
      isqrt.simps is_prime_loop.simps)

lemma sample_even_years: "filter_by_divisible_years sample_data 2 = Inr [sample_data ! 1, sample_data ! 5]"
  by (simp add: filter_by_divisible_years_def sample_data_def rec_def is_divisible_by_def)

lemma sample_mars:
  "filter_by_column sample_data ''mission_type'' ''Mars'' = Inr ([], [sample_data ! 0, sample_data ! 3])"
  by code_simp

lemma sample_venus: "filter_by_column sample_data ''mission_type'' ''Venus'' = Inr ([], [])"
  by code_simp

lemma sample_impact:
  "filter_by_column sample_data ''scientific_impact'' ''8'' =
     Inr ([], [sample_data ! 1, sample_data ! 3, sample_data ! 4])"
  by code_simp

lemma sample_impact_high:
  "filter_by_column sample_data ''scientific_impact'' ''high'' =
     Inr ([impact_not_a_number], sample_data)"
  by code_simp

lemma sample_year_column: "filter_by_column sample_data ''year'' ''1973'' = Inl AttributeError"
  by code_simp

text \<open>
  Claim C5, amended. Whenever a filter returns a list, the list is a subsequence of its
  input: the rows kept, in the order of the input. The filter on prime years returns
  when every year is at most \<open>2\<^sup>1\<^sup>0\<^sup>2\<^sup>3\<close>, the filter on divisible years when the divisor is
  not zero, and \<open>filter_by_column\<close>, on a list that is not empty, for the columns
  \<open>success\<close> and \<open>scientific_impact\<close> with every value, and for a column that holds
  text in every row. The filters of the source assign to no row and to no
  list: in the model the input is a value, and a kept row is the row of the input.
\<close>

theorem filters_subsequence:
  "(filter_by_prime_years data = Inr kept \<longrightarrow> subseq kept data) \<and>
   (filter_by_divisible_years data divisor = Inr kept \<longrightarrow> subseq kept data) \<and>
   (filter_by_column data column v = Inr (out, kept) \<longrightarrow> subseq kept data) \<and>
   ((\<forall>row\<in>set data. year row \<le> 2 ^ 1023) \<longrightarrow>
      filter_by_prime_years data = Inr (filter (\<lambda>row. is_prime (year row) = Inr True) data)) \<and>
   (divisor \<noteq> 0 \<longrightarrow>
      filter_by_divisible_years data divisor =
        Inr (filter (\<lambda>row. year row mod divisor = 0) data)) \<and>
   (data \<noteq> [] \<longrightarrow>
      filter_by_column data ''success'' v =
        Inr ([], filter (\<lambda>row. success row = (lower v = ''true'')) data)) \<and>
   (data \<noteq> [] \<longrightarrow>
      (\<exists>out kept. filter_by_column data ''scientific_impact'' v = Inr (out, kept))) \<and>
   (data \<noteq> [] \<and> column \<notin> set typed_keys \<and>
    (\<forall>row\<in>set data. \<exists>s. map_of (columns row) column = Some (Some s)) \<longrightarrow>
      (\<exists>kept. filter_by_column data column v = Inr ([], kept)))"
proof (intro conjI impI)
  assume "filter_by_prime_years data = Inr kept"
  then show "subseq kept data" unfolding filter_by_prime_years_def by (rule list_comp_subseq)
next
  assume "filter_by_divisible_years data divisor = Inr kept"
  then show "subseq kept data" unfolding filter_by_divisible_years_def by (rule list_comp_subseq)
next
  assume "filter_by_column data column v = Inr (out, kept)"
  then show "subseq kept data" by (rule filter_by_column_subseq)
next
  assume "\<forall>row\<in>set data. year row \<le> 2 ^ 1023"
  then show "filter_by_prime_years data =
      Inr (filter (\<lambda>row. is_prime (year row) = Inr True) data)"
    by (rule filter_by_prime_years_total)
next
  assume "divisor \<noteq> 0"
  then show "filter_by_divisible_years data divisor =
      Inr (filter (\<lambda>row. year row mod divisor = 0) data)"
    by (rule filter_by_divisible_years_total)
next
  assume "data \<noteq> []"
  then show "filter_by_column data ''success'' v =
      Inr ([], filter (\<lambda>row. success row = (lower v = ''true'')) data)"
    by (simp add: filter_by_column_success)
next
  assume "data \<noteq> []"
  then show "\<exists>out kept. filter_by_column data ''scientific_impact'' v = Inr (out, kept)"
    by (simp add: filter_by_column_impact split: option.splits)
next
  assume "data \<noteq> [] \<and> column \<notin> set typed_keys \<and>
    (\<forall>row\<in>set data. \<exists>s. map_of (columns row) column = Some (Some s))"
  then show "\<exists>kept. filter_by_column data column v = Inr ([], kept)"
    using filter_by_column_text_total by blast
qed

theorem filters_subsequence_witness:
  "filter_by_prime_years sample_data = Inr [sample_data ! 2] \<and>
   subseq [sample_data ! 2] sample_data \<and>
   filter_by_divisible_years sample_data 2 = Inr [sample_data ! 1, sample_data ! 5] \<and>
   subseq [sample_data ! 1, sample_data ! 5] sample_data \<and>
   filter_by_column sample_data ''mission_type'' ''Mars'' =
     Inr ([], [sample_data ! 0, sample_data ! 3]) \<and>
   subseq [sample_data ! 0, sample_data ! 3] sample_data \<and>
   filter_by_column sample_data ''scientific_impact'' ''8'' =
     Inr ([], [sample_data ! 1, sample_data ! 3, sample_data ! 4]) \<and>
   subseq [sample_data ! 1, sample_data ! 3, sample_data ! 4] sample_data \<and>
   filter_by_column sample_data ''scientific_impact'' ''high'' =
     Inr ([impact_not_a_number], sample_data) \<and>
   subseq sample_data sample_data \<and>
   list_all (\<lambda>row. year row \<le> 2 ^ 1023) sample_data \<and>
   filter_by_prime_years sample_data =
     Inr (filter (\<lambda>row. is_prime (year row) = Inr True) sample_data) \<and>
   filter_by_divisible_years sample_data 2 =
     Inr (filter (\<lambda>row. year row mod 2 = 0) sample_data) \<and>
   sample_data \<noteq> [] \<and>
   filter_by_column sample_data ''success'' ''false'' =
     Inr ([], filter (\<lambda>row. success row = (lower ''false'' = ''true'')) sample_data) \<and>
   (\<exists>out kept. filter_by_column sample_data ''scientific_impact'' ''8'' = Inr (out, kept)) \<and>
   ''mission_type'' \<notin> set typed_keys \<and>
   list_all (\<lambda>row. \<exists>s. map_of (columns row) ''mission_type'' = Some (Some s)) sample_data \<and>
   (\<exists>kept. filter_by_column sample_data ''mission_type'' ''Mars'' = Inr ([], kept))"
proof -
  have ne: "sample_data \<noteq> []" by (simp add: sample_data_def)
  have small: "list_all (\<lambda>row. year row \<le> 2 ^ 1023) sample_data"
    by (simp add: sample_data_def rec_def)
  have two: "(2::int) \<noteq> 0" by simp
  have mt: "''mission_type'' \<notin> set typed_keys" by (simp add: typed_keys_def)
  have texts: "list_all (\<lambda>row. \<exists>s. map_of (columns row) ''mission_type'' = Some (Some s)) sample_data"
    by (simp add: sample_data_def rec_def)
  note p = filters_subsequence [of sample_data "[sample_data ! 2]" 2 "''mission_type''" "''false''" "[]"]
  note d = filters_subsequence
    [of sample_data "[sample_data ! 1, sample_data ! 5]" 2 "''mission_type''" "''8''" "[]"]
  note c = filters_subsequence
    [of sample_data "[sample_data ! 0, sample_data ! 3]" 2 "''mission_type''" "''Mars''" "[]"]
  note i = filters_subsequence
    [of sample_data "[sample_data ! 1, sample_data ! 3, sample_data ! 4]" 2
      "''scientific_impact''" "''8''" "[]"]
  note h = filters_subsequence
    [of sample_data sample_data 2 "''scientific_impact''" "''high''" "[impact_not_a_number]"]
  have a1: "subseq [sample_data ! 2] sample_data" using p sample_prime_years by blast
  have a2: "subseq [sample_data ! 1, sample_data ! 5] sample_data" using d sample_even_years by blast
  have a3: "subseq [sample_data ! 0, sample_data ! 3] sample_data" using c sample_mars by blast
  have a4: "filter_by_prime_years sample_data =
      Inr (filter (\<lambda>row. is_prime (year row) = Inr True) sample_data)"
    using p small unfolding list_all_iff by blast
  have a5: "filter_by_divisible_years sample_data 2 =
      Inr (filter (\<lambda>row. year row mod 2 = 0) sample_data)"
    using p two by blast
  have a6: "filter_by_column sample_data ''success'' ''false'' =
      Inr ([], filter (\<lambda>row. success row = (lower ''false'' = ''true'')) sample_data)"
    using p ne by blast
  have a7: "\<exists>out kept. filter_by_column sample_data ''scientific_impact'' ''8'' = Inr (out, kept)"
    using d ne by blast
  have a8: "\<exists>kept. filter_by_column sample_data ''mission_type'' ''Mars'' = Inr ([], kept)"
    using c ne mt texts unfolding list_all_iff by blast
  have a9: "subseq [sample_data ! 1, sample_data ! 3, sample_data ! 4] sample_data"
    using i sample_impact by blast
  have a10: "subseq sample_data sample_data" using h sample_impact_high by blast
  show ?thesis
    using sample_prime_years sample_even_years sample_mars sample_impact sample_impact_high
      small ne mt texts a1 a2 a3 a4 a5 a6 a7 a8 a9 a10 by (intro conjI)
qed

text \<open>
  Claim C5 as stated, for every existing column, fails for the column \<open>year\<close>: it is a
  key of every row, and the filter raises AttributeError (an int has no \<open>lower\<close>)
  instead of returning a subsequence.
\<close>

theorem filters_subsequence_year_counterexample:
  "''year'' \<in> set (keys (hd sample_data)) \<and>
   filter_by_column sample_data ''year'' ''1973'' = Inl AttributeError"
proof -
  have "''year'' \<in> set (keys (hd sample_data))" by (simp add: keys_def typed_keys_def)
  then show ?thesis using sample_year_column by simp
qed

text \<open>
  Filtering the result of a filter once more with the same filter gives the same
  result: for the filters on prime and on divisible years always, for
  \<open>filter_by_column\<close> when the first result is not empty.
\<close>

lemma filters_idempotent:
  "(filter_by_prime_years data = Inr kept \<longrightarrow> filter_by_prime_years kept = Inr kept) \<and>
   (filter_by_divisible_years data divisor = Inr kept \<longrightarrow>
      filter_by_divisible_years kept divisor = Inr kept) \<and>
   (filter_by_column data column v = Inr (out, kept) \<and> kept \<noteq> [] \<longrightarrow>
      filter_by_column kept column v = Inr (out, kept))"
proof (intro conjI impI)
  assume "filter_by_prime_years data = Inr kept"
  then show "filter_by_prime_years kept = Inr kept"
    unfolding filter_by_prime_years_def by (rule list_comp_idem)
next
  assume "filter_by_divisible_years data divisor = Inr kept"
  then show "filter_by_divisible_years kept divisor = Inr kept"
    unfolding filter_by_divisible_years_def by (rule list_comp_idem)
next
  assume "filter_by_column data column v = Inr (out, kept) \<and> kept \<noteq> []"
  then show "filter_by_column kept column v = Inr (out, kept)"
    using filter_by_column_idem by blast
qed

lemma filters_idempotent_sample:
  "filter_by_prime_years [sample_data ! 2] = Inr [sample_data ! 2] \<and>
   filter_by_divisible_years [sample_data ! 1, sample_data ! 5] 2 =
     Inr [sample_data ! 1, sample_data ! 5] \<and>
   filter_by_column [sample_data ! 0, sample_data ! 3] ''mission_type'' ''Mars'' =
     Inr ([], [sample_data ! 0, sample_data ! 3])"
proof -
  note p = filters_idempotent [of sample_data "[sample_data ! 2]" 2 "''mission_type''" "''Mars''" "[]"]
  note d = filters_idempotent
    [of sample_data "[sample_data ! 1, sample_data ! 5]" 2 "''mission_type''" "''Mars''" "[]"]
  note c = filters_idempotent
    [of sample_data "[sample_data ! 0, sample_data ! 3]" 2 "''mission_type''" "''Mars''" "[]"]
  have ne: "[sample_data ! 0, sample_data ! 3] \<noteq> []" by simp
  have a1: "filter_by_prime_years [sample_data ! 2] = Inr [sample_data ! 2]"
    using p sample_prime_years by blast
  have a2: "filter_by_divisible_years [sample_data ! 1, sample_data ! 5] 2 =
      Inr [sample_data ! 1, sample_data ! 5]"
    using d sample_even_years by blast
  have a3: "filter_by_column [sample_data ! 0, sample_data ! 3] ''mission_type'' ''Mars'' =
      Inr ([], [sample_data ! 0, sample_data ! 3])"
    using c sample_mars ne by blast
  show ?thesis using a1 a2 a3 by (intro conjI)
qed

text \<open>
  Claim C7. Filtering an already filtered list once more with the same filter gives the
  same list, for the three filters. The code departs from the claim when
  \<open>filter_by_column\<close> keeps no row: no mission of the table is of type Venus, the first
  call returns the empty list, and the second call, on that list, raises IndexError
  where the claim has the empty list again. The filters on prime and on divisible years
  return the empty list on the empty list.
\<close>

theorem filters_idempotent_empty:
  "filter_by_column sample_data ''mission_type'' ''Venus'' = Inr ([], []) \<and>
   filter_by_column [] ''mission_type'' ''Venus'' = Inl IndexError \<and>
   filter_by_column [] ''mission_type'' ''Venus'' \<noteq> Inr ([], []) \<and>
   filter_by_prime_years [] = Inr [] \<and>
   filter_by_divisible_years [] 2 = Inr []"
proof -
  have "filter_by_column [] ''mission_type'' ''Venus'' = Inl IndexError"
    by (simp add: filter_by_column_def)
  moreover have "filter_by_prime_years [] = Inr []" by (simp add: filter_by_prime_years_def)
  moreover have "filter_by_divisible_years [] 2 = Inr []"
    by (simp add: filter_by_divisible_years_def)
  ultimately show ?thesis using sample_venus by simp
qed

section \<open>Properties of the reporter\<close>

subsection \<open>Counting and sorting\<close>

lemma Counter_snoc: "Counter (xs @ [x]) = count_elem x (Counter xs)"
  by (simp add: Counter_def)

lemma count_elem_keys:
  "map fst (count_elem x b) = (if x \<in> set (map fst b) then map fst b else map fst b @ [x])"
proof (induction b)
  case Nil
  show ?case by simp
next
  case (Cons p b)
  obtain k c where p: "p = (k, c)" by (cases p)
  show ?case
  proof (cases "k = x")
    case True
    then show ?thesis unfolding p by simp
  next
    case False
    then show ?thesis unfolding p using Cons.IH by simp
  qed
qed

lemma count_elem_map_of:
  "map_of (count_elem x b) =
     (map_of b)(x \<mapsto> (case map_of b x of None \<Rightarrow> 1 | Some c \<Rightarrow> c + 1))"
proof (induction b)
  case Nil
  show ?case by simp
next
  case (Cons p b)
  obtain k c where p: "p = (k, c)" by (cases p)
  show ?case
  proof (cases "k = x")
    case True
    then show ?thesis unfolding p by (auto simp: fun_eq_iff)
  next
    case False
    then show ?thesis unfolding p using Cons.IH by (auto simp: fun_eq_iff)
  qed
qed

lemma first_index_less: "x \<in> set xs \<Longrightarrow> first_index xs x < length xs"
  by (induction xs) (auto simp: first_index_def)

lemma first_index_append_in:
  "x \<in> set xs \<Longrightarrow> first_index (xs @ ys) x = first_index xs x"
  by (induction xs) (auto simp: first_index_def)

lemma first_index_append_new:
  "x \<notin> set xs \<Longrightarrow> first_index (xs @ [x]) x = length xs"
  by (induction xs) (auto simp: first_index_def)

lemma Counter_invariant:
  "distinct (map fst (Counter xs)) \<and> set (map fst (Counter xs)) = set xs \<and>
   (\<forall>k. map_of (Counter xs) k = (if k \<in> set xs then Some (count_list xs k) else None)) \<and>
   sorted_wrt (\<lambda>k k'. first_index xs k < first_index xs k') (map fst (Counter xs))"
proof (induction xs rule: rev_induct)
  case Nil
  show ?case by (simp add: Counter_def)
next
  case (snoc x xs)
  let ?b = "Counter xs"
  from snoc have d: "distinct (map fst ?b)" and s: "set (map fst ?b) = set xs"
    and c: "\<And>k. map_of ?b k = (if k \<in> set xs then Some (count_list xs k) else None)"
    and o: "sorted_wrt (\<lambda>k k'. first_index xs k < first_index xs k') (map fst ?b)"
    by simp_all
  have 1: "distinct (map fst (Counter (xs @ [x])))"
    unfolding Counter_snoc count_elem_keys using d s by simp
  have 2: "set (map fst (Counter (xs @ [x]))) = set (xs @ [x])"
    unfolding Counter_snoc count_elem_keys using s by auto
  have 3: "map_of (Counter (xs @ [x])) k =
      (if k \<in> set (xs @ [x]) then Some (count_list (xs @ [x]) k) else None)" for k
    unfolding Counter_snoc count_elem_map_of using c [of k] c [of x]
    by (simp add: count_list_0_iff)
  have o': "sorted_wrt (\<lambda>k k'. first_index (xs @ [x]) k < first_index (xs @ [x]) k') (map fst ?b)"
  proof (rule sorted_wrt_mono_rel [OF _ o])
    fix k k' assume "k \<in> set (map fst ?b)" "k' \<in> set (map fst ?b)"
      and "first_index xs k < first_index xs k'"
    then show "first_index (xs @ [x]) k < first_index (xs @ [x]) k'"
      using s by (simp add: first_index_append_in)
  qed
  have 4: "sorted_wrt (\<lambda>k k'. first_index (xs @ [x]) k < first_index (xs @ [x]) k')
      (map fst (Counter (xs @ [x])))"
  proof (cases "x \<in> set xs")
    case True
    then show ?thesis unfolding Counter_snoc count_elem_keys using o' s by simp
  next
    case False
    have "first_index (xs @ [x]) k < first_index (xs @ [x]) x" if "k \<in> set xs" for k
      using that False
      by (simp add: first_index_append_in first_index_append_new first_index_less)
    then have "\<forall>k\<in>set (map fst ?b). first_index (xs @ [x]) k < first_index (xs @ [x]) x"
      unfolding s by blast
    moreover have "map fst (count_elem x ?b) = map fst ?b @ [x]"
      unfolding count_elem_keys s using False by simp
    ultimately show ?thesis
      unfolding Counter_snoc using o' by (simp add: sorted_wrt_append del: set_map)
  qed
  show ?case using 1 2 3 4 by blast
qed

lemma insort_key_order:
  fixes f :: "'a \<Rightarrow> int"
  assumes "sorted_wrt (\<lambda>a b. f a < f b \<or> (f a = f b \<and> pos a < pos b)) ys"
    and "\<forall>y\<in>set ys. pos x < pos y"
  shows "sorted_wrt (\<lambda>a b. f a < f b \<or> (f a = f b \<and> pos a < pos b)) (insort_key f x ys)"
  using assms
proof (induction ys)
  case Nil
  show ?case by simp
next
  case (Cons y ys)
  show ?case
  proof (cases "f x \<le> f y")
    case True
    have "f x < f z \<or> (f x = f z \<and> pos x < pos z)" if "z \<in> set (y # ys)" for z
    proof -
      have "f y \<le> f z" using that Cons.prems(1) by auto
      then have "f x \<le> f z" using True by simp
      moreover have "pos x < pos z" using that Cons.prems(2) by auto
      ultimately show ?thesis by auto
    qed
    then show ?thesis using True Cons.prems(1) by simp
  next
    case False
    have "sorted_wrt (\<lambda>a b. f a < f b \<or> (f a = f b \<and> pos a < pos b)) (insort_key f x ys)"
      using Cons.IH Cons.prems by simp
    then show ?thesis using False Cons.prems(1) by (auto simp: set_insort_key)
  qed
qed

lemma sort_key_order:
  fixes f :: "'a \<Rightarrow> int"
  assumes "sorted_wrt (\<lambda>a b. pos a < pos b) xs"
  shows "sorted_wrt (\<lambda>a b. f a < f b \<or> (f a = f b \<and> pos a < pos b)) (sort_key f xs)"
  using assms
proof (induction xs)
  case Nil
  show ?case by simp
next
  case (Cons x xs)
  have "sorted_wrt (\<lambda>a b. f a < f b \<or> (f a = f b \<and> pos a < pos b)) (sort_key f xs)"
    using Cons by simp
  moreover have "\<forall>y\<in>set (sort_key f xs). pos x < pos y" using Cons.prems by simp
  ultimately show ?case by (simp add: insort_key_order)
qed

lemma most_common_Counter: "spec_breakdown xs (most_common (Counter xs))"
proof -
  let ?b = "Counter xs"
  let ?m = "most_common ?b"
  from Counter_invariant [of xs]
  have d: "distinct (map fst ?b)" and s: "set (map fst ?b) = set xs"
    and c: "\<And>k. map_of ?b k = (if k \<in> set xs then Some (count_list xs k) else None)"
    and o: "sorted_wrt (\<lambda>k k'. first_index xs k < first_index xs k') (map fst ?b)"
    by simp_all
  have set_m: "set ?m = set ?b" unfolding most_common_def by simp
  have db: "distinct ?b" using d by (rule distinct_map [THEN iffD1, THEN conjunct1])
  have inj: "inj_on fst (set ?b)" using d by (simp add: distinct_map)
  have 1: "distinct (map fst ?m)"
    unfolding distinct_map set_m using db inj by (simp add: most_common_def)
  have 2: "set (map fst ?m) = set xs" using s set_m by simp
  have 3: "\<forall>(k, c)\<in>set ?m. c = count_list xs k"
  proof (clarify)
    fix k n assume "(k, n) \<in> set ?m"
    then have "(k, n) \<in> set ?b" using set_m by simp
    then have "map_of ?b k = Some n" using d by simp
    then show "n = count_list xs k" using c [of k] by (simp split: if_splits)
  qed
  have o2: "sorted_wrt (\<lambda>a b. first_index xs (fst a) < first_index xs (fst b)) ?b"
    using o by (simp add: sorted_wrt_map)
  have "sorted_wrt (\<lambda>a b. (case a of (k, c) \<Rightarrow> - int c) < (case b of (k, c) \<Rightarrow> - int c) \<or>
          ((case a of (k, c) \<Rightarrow> - int c) = (case b of (k, c) \<Rightarrow> - int c) \<and>
           first_index xs (fst a) < first_index xs (fst b))) ?m"
    unfolding most_common_def using o2 by (rule sort_key_order)
  then have 4: "sorted_wrt (\<lambda>(k, c) (k', c').
      c' < c \<or> (c' = c \<and> first_index xs k < first_index xs k')) ?m"
    by (rule sorted_wrt_mono_rel [rotated]) auto
  show ?thesis unfolding spec_breakdown_def using 1 2 3 4 by blast
qed

subsection \<open>The summary\<close>

lemma int_truediv_ok:
  assumes "b \<noteq> 0" "\<bar>a\<bar> \<le> 2 ^ 1023 * \<bar>b\<bar>"
  shows "int_truediv a b = Inr (round_double (of_int a / of_int b))"
proof -
  have b: "0 < \<bar>of_int b :: rat\<bar>" using assms(1) by simp
  have "(of_int \<bar>a\<bar> :: rat) \<le> of_int (2 ^ 1023 * \<bar>b\<bar>)" using assms(2) by (simp only: of_int_le_iff)
  then have "\<bar>of_int a :: rat\<bar> \<le> 2 ^ 1023 * \<bar>of_int b\<bar>" by simp
  then have "\<bar>of_int a / of_int b :: rat\<bar> \<le> 2 ^ 1023"
    using b by (simp add: field_simps abs_divide del: of_int_abs)
  also have "(2::rat) ^ 1023 = pow2 1023" by (simp add: pow2_def)
  finally have "\<bar>round_double (of_int a / of_int b)\<bar> \<le> pow2 1023"
    by (rule round_double_abs_bound) simp
  also have "pow2 1023 < 2 ^ 1024" by (simp add: pow2_def)
  finally have "\<not> 2 ^ 1024 \<le> \<bar>round_double (of_int a / of_int b)\<bar>" by simp
  then show ?thesis unfolding int_truediv_def Let_def using assms(1) by simp
qed

lemma py_min_Min: "xs \<noteq> [] \<Longrightarrow> py_min xs = Inr (Min (set xs))"
proof (cases xs)
  case Nil
  assume "xs \<noteq> []"
  then show ?thesis using Nil by simp
next
  case (Cons x ys)
  show ?thesis unfolding Cons by (simp only: py_min.simps Min.set_eq_fold)
qed

lemma py_max_Max: "xs \<noteq> [] \<Longrightarrow> py_max xs = Inr (Max (set xs))"
proof (cases xs)
  case Nil
  assume "xs \<noteq> []"
  then show ?thesis using Nil by simp
next
  case (Cons x ys)
  show ?thesis unfolding Cons by (simp only: py_max.simps Max.set_eq_fold)
qed

lemma getitem_text:
  assumes "has_text column row" "column \<notin> set typed_keys"
  shows "getitem row column = Inr (VStr (text_column column row))"
  using assms
  by (auto simp: has_text_def text_column_def getitem_def typed_keys_def split: option.splits)

lemma column_values_text:
  assumes "\<forall>row\<in>set data. has_text column row" "column \<notin> set typed_keys"
  shows "column_values column data = Inr (map (\<lambda>row. VStr (text_column column row)) data)"
  using assms by (induction data) (simp_all add: getitem_text)

lemma countries_loop_text:
  assumes "\<forall>row\<in>set data. has_text ''participating_countries'' row"
  shows "countries_loop countries data =
     Inr (countries @
          concat (map (\<lambda>row. split_on CHR ''/'' (text_column ''participating_countries'' row)) data))"
  using assms
proof (induction data arbitrary: countries)
  case Nil
  show ?case by simp
next
  case (Cons row data)
  have "''participating_countries'' \<notin> set typed_keys" by (simp add: typed_keys_def)
  then have "getitem row ''participating_countries'' =
      Inr (VStr (text_column ''participating_countries'' row))"
    using Cons.prems by (intro getitem_text) simp_all
  then show ?case using Cons by simp
qed

lemma abs_sum_list_le:
  fixes f :: "'a \<Rightarrow> int"
  assumes "\<forall>x\<in>set xs. \<bar>f x\<bar> \<le> B"
  shows "\<bar>sum_list (map f xs)\<bar> \<le> B * int (length xs)"
  using assms
proof (induction xs)
  case Nil
  show ?case by simp
next
  case (Cons x xs)
  have "\<bar>f x + sum_list (map f xs)\<bar> \<le> \<bar>f x\<bar> + \<bar>sum_list (map f xs)\<bar>" by (rule abs_triangle_ineq)
  also have "\<dots> \<le> B + B * int (length xs)" using Cons by (intro add_mono) simp_all
  finally show ?case by (simp add: algebra_simps)
qed

lemma sample_types:
  "most_common (Counter (map (\<lambda>row. VStr (text_column ''mission_type'' row)) sample_data)) =
     [(VStr ''Mars'', 2), (VStr ''Jupiter'', 2), (VStr ''Outer Planets'', 1), (VStr ''Earth'', 1)]"
  by code_simp

lemma sample_countries:
  "most_common (Counter (concat (map (\<lambda>row.
      split_on CHR ''/'' (text_column ''participating_countries'' row)) sample_data))) =
     [(''USA'', 4), (''USSR'', 2)]"
  by code_simp

lemma sample_lines:
  "str_of_int (int (length sample_data)) = ''6''"
  "str_of_int (Min (set (map year sample_data))) = ''1971''"
  "str_of_int (Max (set (map year sample_data))) = ''1980''"
  "format_1f (round_double
     (round_double (of_nat (length (filter success sample_data)) / of_nat (length sample_data)) *
      100)) = ''83.3''"
  "format_1f (round_double
     (of_int (sum_list (map scientific_impact sample_data)) / of_nat (length sample_data))) =
   ''6.8''"
  "map (\<lambda>(mission_type, count). breakdown_line (str_of_val mission_type) count)
     [(VStr ''Mars'', 2), (VStr ''Jupiter'', 2), (VStr ''Outer Planets'', 1), (VStr ''Earth'', 1)] =
   [''  Mars: 2 missions'', ''  Jupiter: 2 missions'', ''  Outer Planets: 1 missions'',
    ''  Earth: 1 missions'']"
  "map (\<lambda>(country, count). breakdown_line country count) [(''USA'', 4), (''USSR'', 2)] =
   [''  USA: 4 missions'', ''  USSR: 2 missions'']"
  by code_simp+

lemma overflow_summary:
  assumes "1024 \<le> k"
  shows "generate_summary [rec 1990 ''Probe'' ''Mars'' True ''USA'' (2 ^ k)] =
     ([[CHR 0x0A] @ ''=== Summary Statistics ==='',
       ''Total missions: 1'',
       ''Years covered: 1990 to 1990'',
       ''Success rate: 100.0%''],
      Some OverflowError)"
proof -
  have k: "52 \<le> k" using assms by simp
  have r: "round_double (of_int (2 ^ k) / of_int 1) = 2 ^ k" using round_double_pow2 [OF k] by simp
  have "(2::rat) ^ 1024 \<le> 2 ^ k" using assms by (intro power_increasing) simp_all
  then have "(2::rat) ^ 1024 \<le> \<bar>2 ^ k\<bar>" by simp
  then have big: "int_truediv (2 ^ k) 1 = Inl OverflowError"
    unfolding int_truediv_def r Let_def by simp
  have "int_truediv 1 1 = Inr (round_double (of_int 1 / of_int 1))"
    by (rule int_truediv_ok) simp_all
  also have "round_double (of_int 1 / of_int 1) = of_int 1"
    using round_double_of_int [of 1] by simp
  finally have one: "int_truediv 1 1 = Inr 1" by simp
  have "float_mul 1 100 = round_double (of_int 100)" by (simp add: float_mul_def)
  also have "\<dots> = of_int 100" by (rule round_double_of_int) simp_all
  finally have hundred: "float_mul 1 100 = 100" by simp
  have strs: "str_of_int 1 = ''1''" "str_of_int 1990 = ''1990''" "format_1f 100 = ''100.0''"
    by code_simp+
  show ?thesis
    by (simp add: generate_summary_def rec_def Let_def big one hundred strs)
qed

text \<open>
  Claim C8, amended. The records hold text in \<open>mission_type\<close> and
  \<open>participating_countries\<close> and an impact of at most \<open>2\<^sup>1\<^sup>0\<^sup>2\<^sup>3\<close> in absolute value. On a
  list that is not empty \<open>generate_summary\<close> prints the number of records, the least and
  the greatest year, the success rate (the number of successful records divided by the
  number of records, times 100, in double precision) and the average impact (the sum
  divided by the number of records) with one decimal, then the breakdown of the
  mission types and the breakdown of the countries, a record counting once for each
  part of its \<open>participating_countries\<close> between slashes; each breakdown lists the most
  frequent first and equal counts in the order of first occurrence.
\<close>

theorem generate_summary_spec:
  assumes "data \<noteq> []"
    and "\<forall>row\<in>set data. has_text ''mission_type'' row \<and>
           has_text ''participating_countries'' row \<and> \<bar>scientific_impact row\<bar> \<le> 2 ^ 1023"
  shows "generate_summary data =
     ([[CHR 0x0A] @ ''=== Summary Statistics ==='',
       ''Total missions: '' @ str_of_int (int (length data)),
       ''Years covered: '' @ str_of_int (Min (set (map year data))) @ '' to '' @
         str_of_int (Max (set (map year data))),
       ''Success rate: '' @
         format_1f (round_double
           (round_double (of_nat (length (filter success data)) / of_nat (length data)) * 100)) @
         ''%'',
       ''Average scientific impact: '' @
         format_1f (round_double
           (of_int (sum_list (map scientific_impact data)) / of_nat (length data))),
       [CHR 0x0A] @ ''Mission types breakdown:''] @
      map (\<lambda>(mission_type, count). breakdown_line (str_of_val mission_type) count)
        (most_common (Counter (map (\<lambda>row. VStr (text_column ''mission_type'' row)) data))) @
      [[CHR 0x0A] @ ''Participating countries breakdown:''] @
      map (\<lambda>(country, count). breakdown_line country count)
        (most_common (Counter (concat (map (\<lambda>row.
           split_on CHR ''/'' (text_column ''participating_countries'' row)) data)))),
      None) \<and>
    spec_breakdown (map (\<lambda>row. VStr (text_column ''mission_type'' row)) data)
      (most_common (Counter (map (\<lambda>row. VStr (text_column ''mission_type'' row)) data))) \<and>
    spec_breakdown
      (concat (map (\<lambda>row. split_on CHR ''/'' (text_column ''participating_countries'' row)) data))
      (most_common (Counter (concat (map (\<lambda>row.
         split_on CHR ''/'' (text_column ''participating_countries'' row)) data))))"
proof -
  define n where "n = int (length data)"
  have n: "n \<noteq> 0" "0 < n" unfolding n_def using assms(1) by simp_all
  define c where "c = int (length (filter success data))"
  have "length (filter success data) \<le> length data" by (rule length_filter_le)
  then have "c \<le> n" "0 \<le> c" unfolding c_def n_def by simp_all
  have "1 * n \<le> 2 ^ 1023 * n" using n(2) by (intro mult_right_mono) simp_all
  then have "\<bar>c\<bar> \<le> 2 ^ 1023 * \<bar>n\<bar>" using \<open>c \<le> n\<close> \<open>0 \<le> c\<close> n(2) by simp
  then have rate: "int_truediv c n = Inr (round_double (of_int c / of_int n))"
    using n(1) by (intro int_truediv_ok)
  have "\<bar>sum_list (map scientific_impact data)\<bar> \<le> 2 ^ 1023 * n"
    unfolding n_def using assms(2) by (intro abs_sum_list_le) simp
  then have "\<bar>sum_list (map scientific_impact data)\<bar> \<le> 2 ^ 1023 * \<bar>n\<bar>" using n(2) by simp
  then have avg: "int_truediv (sum_list (map scientific_impact data)) n =
      Inr (round_double (of_int (sum_list (map scientific_impact data)) / of_int n))"
    using n(1) by (intro int_truediv_ok)
  have mt: "''mission_type'' \<notin> set typed_keys" by (simp add: typed_keys_def)
  have types: "column_values ''mission_type'' data =
      Inr (map (\<lambda>row. VStr (text_column ''mission_type'' row)) data)"
    using assms(2) mt by (intro column_values_text) simp_all
  have countries: "countries_loop [] data =
      Inr ([] @ concat (map (\<lambda>row.
        split_on CHR ''/'' (text_column ''participating_countries'' row)) data))"
    using assms(2) by (intro countries_loop_text) simp
  have years: "map year data \<noteq> []" using assms(1) by simp
  have eq: "generate_summary data =
     ([[CHR 0x0A] @ ''=== Summary Statistics ==='',
       ''Total missions: '' @ str_of_int n,
       ''Years covered: '' @ str_of_int (Min (set (map year data))) @ '' to '' @
         str_of_int (Max (set (map year data))),
       ''Success rate: '' @
         format_1f (round_double (round_double (of_int c / of_int n) * 100)) @ ''%'',
       ''Average scientific impact: '' @
         format_1f (round_double (of_int (sum_list (map scientific_impact data)) / of_int n)),
       [CHR 0x0A] @ ''Mission types breakdown:''] @
      map (\<lambda>(mission_type, count). breakdown_line (str_of_val mission_type) count)
        (most_common (Counter (map (\<lambda>row. VStr (text_column ''mission_type'' row)) data))) @
      [[CHR 0x0A] @ ''Participating countries breakdown:''] @
      map (\<lambda>(country, count). breakdown_line country count)
        (most_common (Counter (concat (map (\<lambda>row.
           split_on CHR ''/'' (text_column ''participating_countries'' row)) data)))),
      None)"
    unfolding generate_summary_def Let_def n_def [symmetric] c_def [symmetric]
      rate avg types countries py_min_Min [OF years] py_max_Max [OF years] float_mul_def
    using assms(1) by simp
  show ?thesis
    by (intro conjI eq [unfolded n_def c_def of_int_of_nat_eq] most_common_Counter)
qed

theorem generate_summary_spec_witness:
  "sample_data \<noteq> [] \<and>
   list_all (\<lambda>row. has_text ''mission_type'' row \<and> has_text ''participating_countries'' row \<and>
      \<bar>scientific_impact row\<bar> \<le> 2 ^ 1023) sample_data \<and>
   generate_summary sample_data =
     ([[CHR 0x0A] @ ''=== Summary Statistics ==='',
       ''Total missions: 6'',
       ''Years covered: 1971 to 1980'',
       ''Success rate: 83.3%'',
       ''Average scientific impact: 6.8'',
       [CHR 0x0A] @ ''Mission types breakdown:'',
       ''  Mars: 2 missions'',
       ''  Jupiter: 2 missions'',
       ''  Outer Planets: 1 missions'',
       ''  Earth: 1 missions'',
       [CHR 0x0A] @ ''Participating countries breakdown:'',
       ''  USA: 4 missions'',
       ''  USSR: 2 missions''],
      None) \<and>
   spec_breakdown (map (\<lambda>row. VStr (text_column ''mission_type'' row)) sample_data)
     [(VStr ''Mars'', 2), (VStr ''Jupiter'', 2), (VStr ''Outer Planets'', 1), (VStr ''Earth'', 1)] \<and>
   spec_breakdown
     (concat (map (\<lambda>row.
        split_on CHR ''/'' (text_column ''participating_countries'' row)) sample_data))
     [(''USA'', 4), (''USSR'', 2)]"
proof -
  have ne: "sample_data \<noteq> []" by (simp add: sample_data_def)
  have ok: "list_all (\<lambda>row. has_text ''mission_type'' row \<and>
      has_text ''participating_countries'' row \<and> \<bar>scientific_impact row\<bar> \<le> 2 ^ 1023) sample_data"
    by (simp add: sample_data_def rec_def has_text_def)
  then have ok': "\<forall>row\<in>set sample_data. has_text ''mission_type'' row \<and>
      has_text ''participating_countries'' row \<and> \<bar>scientific_impact row\<bar> \<le> 2 ^ 1023"
    by (simp only: list_all_iff)
  note spec = generate_summary_spec [OF ne ok', unfolded sample_types sample_countries sample_lines]
  show ?thesis using ne ok spec by simp
qed

text \<open>
  Claim C8 as stated, for every list that is not empty, fails when the average impact
  is beyond the doubles: for one record of impact \<open>2\<^sup>1\<^sup>0\<^sup>2\<^sup>4\<close> the division raises
  OverflowError after four lines are printed, and no average and no breakdown follow.
\<close>

theorem generate_summary_overflow_counterexample:
  "generate_summary [rec 1990 ''Probe'' ''Mars'' True ''USA'' (2 ^ 1024)] =
     ([[CHR 0x0A] @ ''=== Summary Statistics ==='',
       ''Total missions: 1'',
       ''Years covered: 1990 to 1990'',
       ''Success rate: 100.0%''],
      Some OverflowError)"
  by (rule overflow_summary) simp

section \<open>Properties of the chart renderer\<close>

lemma incr_map:
  assumes "k \<in> set ks" "distinct ks"
  shows "incr k (map (\<lambda>y. (y, f y)) ks) = Inr (map (\<lambda>y. (y, if y = k then f y + 1 else f y)) ks)"
  using assms
proof (induction ks)
  case Nil
  then show ?case by simp
next
  case (Cons a ks)
  show ?case
  proof (cases "a = k")
    case True
    then have "k \<notin> set ks" using Cons.prems(2) by simp
    then have "map (\<lambda>y. (y, if y = k then f y + 1 else f y)) ks = map (\<lambda>y. (y, f y)) ks"
      by (intro map_cong) auto
    then show ?thesis using True by simp
  next
    case False
    then have "k \<in> set ks" "distinct ks" using Cons.prems by simp_all
    then show ?thesis using False Cons.IH by simp
  qed
qed

lemma count_loop_map:
  assumes "distinct ks" "year ` set data \<subseteq> set ks"
  shows "count_loop (map (\<lambda>y. (y, f y)) ks) (map (\<lambda>y. (y, g y)) ks) data =
     Inr (map (\<lambda>y. (y, f y + int (successes_in data y))) ks,
          map (\<lambda>y. (y, g y + int (missions_in data y))) ks)"
  using assms(2)
proof (induction data arbitrary: f g)
  case Nil
  show ?case by (simp add: successes_in_def missions_in_def)
next
  case (Cons row data)
  have k: "year row \<in> set ks" and rest: "year ` set data \<subseteq> set ks" using Cons.prems by simp_all
  let ?g = "\<lambda>y. if y = year row then g y + 1 else g y"
  let ?f = "\<lambda>y. if y = year row then f y + 1 else f y"
  have t: "incr (year row) (map (\<lambda>y. (y, g y)) ks) = Inr (map (\<lambda>y. (y, ?g y)) ks)"
    using k assms(1) by (rule incr_map)
  have s: "incr (year row) (map (\<lambda>y. (y, f y)) ks) = Inr (map (\<lambda>y. (y, ?f y)) ks)"
    using k assms(1) by (rule incr_map)
  show ?case
  proof (cases "success row")
    case True
    have "count_loop (map (\<lambda>y. (y, f y)) ks) (map (\<lambda>y. (y, g y)) ks) (row # data) =
        count_loop (map (\<lambda>y. (y, ?f y)) ks) (map (\<lambda>y. (y, ?g y)) ks) data"
      using True by (simp add: t s)
    also have "\<dots> = Inr (map (\<lambda>y. (y, ?f y + int (successes_in data y))) ks,
        map (\<lambda>y. (y, ?g y + int (missions_in data y))) ks)"
      using rest by (rule Cons.IH)
    also have "map (\<lambda>y. (y, ?f y + int (successes_in data y))) ks =
        map (\<lambda>y. (y, f y + int (successes_in (row # data) y))) ks"
      using True by (intro map_cong) (auto simp: successes_in_def)
    also have "map (\<lambda>y. (y, ?g y + int (missions_in data y))) ks =
        map (\<lambda>y. (y, g y + int (missions_in (row # data) y))) ks"
      by (intro map_cong) (auto simp: missions_in_def)
    finally show ?thesis .
  next
    case False
    have "count_loop (map (\<lambda>y. (y, f y)) ks) (map (\<lambda>y. (y, g y)) ks) (row # data) =
        count_loop (map (\<lambda>y. (y, f y)) ks) (map (\<lambda>y. (y, ?g y)) ks) data"
      using False by (simp add: t)
    also have "\<dots> = Inr (map (\<lambda>y. (y, f y + int (successes_in data y))) ks,
        map (\<lambda>y. (y, ?g y + int (missions_in data y))) ks)"
      using rest by (rule Cons.IH)
    also have "map (\<lambda>y. (y, f y + int (successes_in data y))) ks =
        map (\<lambda>y. (y, f y + int (successes_in (row # data) y))) ks"
      using False by (intro map_cong) (auto simp: successes_in_def)
    also have "map (\<lambda>y. (y, ?g y + int (missions_in data y))) ks =
        map (\<lambda>y. (y, g y + int (missions_in (row # data) y))) ks"
      by (intro map_cong) (auto simp: missions_in_def)
    finally show ?thesis .
  qed
qed

lemma dict_get_map: "y \<in> set ks \<Longrightarrow> dict_get (map (\<lambda>y. (y, h y)) ks) y = Inr (h y)"
  by (induction ks) (auto simp: dict_get_def)

lemma missions_in_pos: "y \<in> year ` set data \<Longrightarrow> 0 < missions_in data y"
  unfolding missions_in_def by (auto simp: filter_empty_conv)

lemma successes_le_missions: "successes_in data y \<le> missions_in data y"
  unfolding successes_in_def missions_in_def
  by (induction data) auto

lemma success_rate_of_map:
  assumes "y \<in> set ks" "y \<in> year ` set data"
  shows "success_rate_of (map (\<lambda>y. (y, int (successes_in data y))) ks)
      (map (\<lambda>y. (y, int (missions_in data y))) ks) y = Inr (spec_rate data y)"
proof -
  define s where "s = int (successes_in data y)"
  define t where "t = int (missions_in data y)"
  have t: "0 < t" unfolding t_def using missions_in_pos [OF assms(2)] by simp
  have s: "0 \<le> s" "s \<le> t" unfolding s_def t_def using successes_le_missions by simp_all
  have "1 * t \<le> 2 ^ 1023 * t" using t by (intro mult_right_mono) simp_all
  then have "\<bar>s\<bar> \<le> 2 ^ 1023 * \<bar>t\<bar>" using s t by simp
  moreover have "t \<noteq> 0" using t by simp
  ultimately have q: "int_truediv s t = Inr (round_double (of_int s / of_int t))"
    by (intro int_truediv_ok)
  show ?thesis
    unfolding success_rate_of_def dict_get_map [OF assms(1)] s_def [symmetric] t_def [symmetric]
    using t q by (simp add: float_mul_def spec_rate_def s_def t_def)
qed

lemma success_rates_of_map:
  assumes "set years \<subseteq> set ks" "set years \<subseteq> year ` set data"
  shows "success_rates_of (map (\<lambda>y. (y, int (successes_in data y))) ks)
      (map (\<lambda>y. (y, int (missions_in data y))) ks) years = Inr (map (spec_rate data) years)"
  using assms
proof (induction years)
  case Nil
  show ?case by simp
next
  case (Cons y years)
  then have "y \<in> set ks" "y \<in> year ` set data" by simp_all
  then have "success_rate_of (map (\<lambda>y. (y, int (successes_in data y))) ks)
      (map (\<lambda>y. (y, int (missions_in data y))) ks) y = Inr (spec_rate data y)"
    by (rule success_rate_of_map)
  then show ?case using Cons by simp
qed

lemma float_truediv_int_ok:
  assumes "0 < n" "n < 2 ^ 53"
  shows "float_truediv_int x n = Inr (round_double (x / of_int n))"
proof -
  have "float_of_int n = Inr (of_int n)" using assms by (intro float_of_int_exact) simp_all
  then show ?thesis unfolding float_truediv_int_def using assms(1) by simp
qed

lemma voyagers_chart:
  "sort (remdups (map year voyagers)) = [1973, 1977]"
  "map (spec_rate voyagers) [1973, 1977] = [0, 100]"
  "round_double (py_sum True [0, 100] / of_nat (length [1973, 1977 :: int])) = 50"
  "round_double (py_sum False [0, 100] / of_nat (length [1973, 1977 :: int])) = 50"
  by code_simp+

lemma voyagers_global_rate:
  "round_double (round_double (of_nat (length (filter success voyagers)) /
     of_nat (length voyagers)) * 100) \<noteq> 50"
  by code_simp

text \<open>
  Claim C9. For a list that is not empty (and of fewer than \<open>2\<^sup>5\<^sup>3\<close> rows, as every list
  in memory is) the chart has one bar for each year that occurs, the years ascending;
  the height of a bar is the success rate of its year, the successes of the year
  divided by the missions of the year, as a percentage; and the line is drawn at the
  sum of these rates divided by their number, the mean of the rates of the years,
  each year counting once. It is not the success rate over all records: with two
  successes in 1977 and one failure in 1973 the line is at 50, the rate over all
  records is two thirds.
\<close>

theorem plot_mission_success_spec:
  assumes "data \<noteq> []" "length data < 2 ^ 53"
  shows "plot_mission_success compensated data output_file =
     Inr ((case output_file of
             None \<Rightarrow> []
           | Some file \<Rightarrow> if file = [] then [] else [''Plot saved to '' @ file]),
          Some \<lparr>bar_years = sort (remdups (map year data)),
                bar_heights = map (spec_rate data) (sort (remdups (map year data))),
                average_line =
                  round_double
                    (py_sum compensated (map (spec_rate data) (sort (remdups (map year data)))) /
                     of_nat (length (sort (remdups (map year data)))))\<rparr>) \<and>
    sorted (sort (remdups (map year data))) \<and>
    distinct (sort (remdups (map year data))) \<and>
    set (sort (remdups (map year data))) = year ` set data"
proof -
  define ks where "ks = sort (remdups (map year data))"
  have d: "distinct ks" unfolding ks_def by simp
  have s: "set ks = year ` set data" unfolding ks_def by simp
  have ne: "ks \<noteq> []" using s assms(1) by auto
  have "length ks = length (remdups (map year data))" unfolding ks_def by simp
  also have "\<dots> \<le> length (map year data)" by (rule length_remdups_leq)
  finally have "int (length ks) < 2 ^ 53" using assms(2) by simp
  moreover have "0 < int (length ks)" using ne by simp
  ultimately have avg: "float_truediv_int x (int (length ks)) =
      Inr (round_double (x / of_int (int (length ks))))" for x
    by (intro float_truediv_int_ok)
  have loop: "count_loop (map (\<lambda>y. (y, 0)) ks) (map (\<lambda>y. (y, 0)) ks) data =
      Inr (map (\<lambda>y. (y, 0 + int (successes_in data y))) ks,
           map (\<lambda>y. (y, 0 + int (missions_in data y))) ks)"
    using d s by (intro count_loop_map) simp_all
  have keys: "map fst (map (\<lambda>y. (y, int (missions_in data y))) ks) = ks"
    by (simp add: comp_def)
  have keys': "map (fst \<circ> (\<lambda>y. (y, int (missions_in data y)))) ks = ks"
    by (simp add: comp_def)
  have rates: "success_rates_of (map (\<lambda>y. (y, int (successes_in data y))) ks)
      (map (\<lambda>y. (y, int (missions_in data y))) ks) ks = Inr (map (spec_rate data) ks)"
    using s by (intro success_rates_of_map) simp_all
  have "plot_mission_success compensated data output_file =
     Inr ((case output_file of
             None \<Rightarrow> []
           | Some file \<Rightarrow> if file = [] then [] else [''Plot saved to '' @ file]),
          Some \<lparr>bar_years = ks, bar_heights = map (spec_rate data) ks,
                average_line =
                  round_double (py_sum compensated (map (spec_rate data) ks) /
                                of_nat (length ks))\<rparr>)"
    unfolding plot_mission_success_def Let_def ks_def [symmetric] loop
    using assms(1) by (simp add: keys keys' rates avg)
  then show ?thesis unfolding ks_def by simp
qed

theorem plot_mission_success_spec_witness:
  "voyagers \<noteq> [] \<and> length voyagers < 2 ^ 53 \<and>
   plot_mission_success True voyagers None =
     Inr ([], Some \<lparr>bar_years = [1973, 1977], bar_heights = [0, 100], average_line = 50\<rparr>) \<and>
   plot_mission_success False voyagers (Some ''chart.png'') =
     Inr ([''Plot saved to chart.png''],
          Some \<lparr>bar_years = [1973, 1977], bar_heights = [0, 100], average_line = 50\<rparr>) \<and>
   round_double (round_double (of_nat (length (filter success voyagers)) /
     of_nat (length voyagers)) * 100) \<noteq> 50"
proof -
  have ne: "voyagers \<noteq> []" by (simp add: voyagers_def)
  have len: "length voyagers < 2 ^ 53" by (simp add: voyagers_def)
  note a = plot_mission_success_spec [OF ne len, of True None, unfolded voyagers_chart,
      THEN conjunct1]
  note b = plot_mission_success_spec [OF ne len, of False "Some ''chart.png''",
      unfolded voyagers_chart, THEN conjunct1]
  show ?thesis using ne len a b voyagers_global_rate by simp
qed

end
